theory Spec2Isabelle
  imports Complex_Main "HOL-Library.Sublist" "HOL-Library.Word"
begin

section \<open>Transport decoder (src/lib/chat/streaming.ts)\<close>

text \<open>
  JavaScript strings are modelled as \<open>string\<close> (lists of 8-bit characters), that is,
  as sequences of code units below 256. A value that may be \<open>undefined\<close> is an
  \<open>option\<close> with \<open>None\<close> for \<open>undefined\<close>.
\<close>

text \<open>
  The values \<open>JSON.parse\<close> produces. The payload of a number is never inspected by the
  code modelled here. An object is its list of properties; \<open>map_of\<close> reads a property.
\<close>

datatype json =
    JNull
  | JBool bool
  | JNum int
  | JStr string
  | JArr "json list"
  | JObj "(string \<times> json) list"

datatype stream_event =
    Delta "string option" "string option"
  | Done
  | Error string

text \<open>
  \<open>String.prototype.split\<close> with a string separator and no limit: the matches of the
  separator are taken from left to right, and the search goes on behind each match. With
  the empty separator the string is split into its code units.
\<close>

fun js_split :: "string \<Rightarrow> string \<Rightarrow> string list" where
  "js_split sep [] = (if sep = [] then [] else [ []])"
| "js_split sep (c # cs) =
     (if sep = [] then map (\<lambda>x. [x]) (c # cs)
      else if prefix sep (c # cs) then [] # js_split sep (drop (length sep - 1) cs)
      else (case js_split sep cs of [] \<Rightarrow> [ [c]] | s # ss \<Rightarrow> (c # s) # ss))"

text \<open>
  \<open>String.prototype.trim\<close>: white space and line terminators among the code units
  below 256 are TAB, LF, VT, FF, CR, SPACE and NBSP.
\<close>

definition js_whitespace :: "char \<Rightarrow> bool" where
  "js_whitespace c \<longleftrightarrow> c \<in> set [CHR 0x09, CHR 0x0A, CHR 0x0B, CHR 0x0C, CHR 0x0D, CHR 0x20, CHR 0xA0]"

definition js_trimEnd :: "string \<Rightarrow> string" where
  "js_trimEnd s = rev (dropWhile js_whitespace (rev s))"

definition js_trim :: "string \<Rightarrow> string" where
  "js_trim s = js_trimEnd (dropWhile js_whitespace s)"

subsection \<open>Tolerant text extraction\<close>

lemma size_map_of_json:
  "map_of kvs k = Some v \<Longrightarrow> size v < size (JObj kvs)"
  by (induction kvs) (auto split: if_splits)

lemma size_entry_json:
  "v \<in> set entries \<Longrightarrow> size v < size (JArr entries)"
  by (induction entries) auto

text \<open>\<open>typeof record.k === "string"\<close>, with the string when it holds.\<close>

definition stringField :: "(string \<times> json) list \<Rightarrow> string \<Rightarrow> string option" where
  "stringField record k = (case map_of record k of Some (JStr t) \<Rightarrow> Some t | _ \<Rightarrow> None)"

function extractTextFromContent :: "json \<Rightarrow> string" where
  "extractTextFromContent (JStr s) = s"
| "extractTextFromContent (JArr entries) = concat (map extractTextFromContent entries)"
| "extractTextFromContent (JObj record) =
     (case stringField record ''text'' of
        Some t \<Rightarrow> t
      | None \<Rightarrow>
         (case map_of record ''content'' of
            Some c \<Rightarrow> extractTextFromContent c
          | None \<Rightarrow> []))"
| "extractTextFromContent JNull = []"
| "extractTextFromContent (JBool b) = []"
| "extractTextFromContent (JNum n) = []"
  by pat_completeness auto
termination
proof (relation "measure size")
  show "wf (measure size)" by simp
next
  fix entries :: "json list" and x
  assume "x \<in> set entries"
  then show "(x, JArr entries) \<in> measure size"
    using size_entry_json by simp
next
  fix kvs :: "(string \<times> json) list" and c
  assume "map_of kvs ''content'' = Some c"
  then show "(c, JObj kvs) \<in> measure size"
    using size_map_of_json by simp
qed

function extractReasoningText :: "json \<Rightarrow> string" where
  "extractReasoningText (JStr s) = s"
| "extractReasoningText (JArr entries) = concat (map extractReasoningText entries)"
| "extractReasoningText (JObj record) =
     (case stringField record ''text'' of
        Some t \<Rightarrow> t
      | None \<Rightarrow>
         (case stringField record ''summary'' of
            Some s \<Rightarrow> s @ [CHR 0x0A, CHR 0x0A]
          | None \<Rightarrow>
             (case stringField record ''data'' of
                Some d \<Rightarrow> d
              | None \<Rightarrow>
                 (case map_of record ''content'' of
                    Some c \<Rightarrow> extractReasoningText c
                  | None \<Rightarrow> []))))"
| "extractReasoningText JNull = []"
| "extractReasoningText (JBool b) = []"
| "extractReasoningText (JNum n) = []"
  by pat_completeness auto
termination
proof (relation "measure size")
  show "wf (measure size)" by simp
next
  fix entries :: "json list" and x
  assume "x \<in> set entries"
  then show "(x, JArr entries) \<in> measure size"
    using size_entry_json by simp
next
  fix kvs :: "(string \<times> json) list" and c
  assume "map_of kvs ''content'' = Some c"
  then show "(c, JObj kvs) \<in> measure size"
    using size_map_of_json by simp
qed

text \<open>The two extractors applied to a value that may be \<open>undefined\<close>.\<close>

definition extractTextFromContentU :: "json option \<Rightarrow> string" where
  "extractTextFromContentU source = (case source of None \<Rightarrow> [] | Some v \<Rightarrow> extractTextFromContent v)"

definition extractReasoningTextU :: "json option \<Rightarrow> string" where
  "extractReasoningTextU source = (case source of None \<Rightarrow> [] | Some v \<Rightarrow> extractReasoningText v)"

subsection \<open>Optional chaining and nullish coalescing\<close>

text \<open>
  \<open>x?.k\<close> for the property names the decoder reads: \<open>undefined\<close> on \<open>undefined\<close> and
  \<open>null\<close>, the property of an object, and \<open>undefined\<close> on every other value (strings,
  arrays, numbers and booleans have no property of these names).
\<close>

definition optProp :: "json option \<Rightarrow> string \<Rightarrow> json option" where
  "optProp x k = (case x of Some (JObj record) \<Rightarrow> map_of record k | _ \<Rightarrow> None)"

text \<open>
  \<open>x?.[0]\<close>: the first element of an array, the first code unit of a string (as a
  string), the property \<open>"0"\<close> of an object.
\<close>

definition optIndex0 :: "json option \<Rightarrow> json option" where
  "optIndex0 x =
     (case x of
        Some (JArr entries) \<Rightarrow> (case entries of [] \<Rightarrow> None | e # _ \<Rightarrow> Some e)
      | Some (JStr s) \<Rightarrow> (case s of [] \<Rightarrow> None | c # _ \<Rightarrow> Some (JStr [c]))
      | Some (JObj record) \<Rightarrow> map_of record ''0''
      | _ \<Rightarrow> None)"

text \<open>\<open>a ?? b\<close>: \<open>b\<close> when \<open>a\<close> is \<open>undefined\<close> or \<open>null\<close>.\<close>

definition nullish :: "json option \<Rightarrow> json option \<Rightarrow> json option" where
  "nullish a b = (case a of None \<Rightarrow> b | Some JNull \<Rightarrow> b | Some v \<Rightarrow> Some v)"

subsection \<open>extractEventsFromBuffer\<close>

text \<open>\<open>array.indexOf(chunk)\<close> for a chunk that occurs in the array.\<close>

fun indexOf :: "'a list \<Rightarrow> 'a \<Rightarrow> nat" where
  "indexOf [] x = 0"
| "indexOf (y # ys) x = (if y = x then 0 else Suc (indexOf ys x))"

text \<open>
  The body of the \<open>try\<close> block after \<open>JSON.parse\<close> has returned \<open>parsed\<close>: the events
  it pushes.
\<close>

definition deltaEvents :: "json \<Rightarrow> stream_event list" where
  "deltaEvents parsed =
     (let choice = optIndex0 (optProp (Some parsed) ''choices'');
          deltaRoot =
            nullish (optProp choice ''delta'')
              (nullish (optProp choice ''message'')
                (nullish (optProp (Some parsed) ''delta'')
                  (nullish (optProp (Some parsed) ''message'') (Some (JObj [])))));
          contentDelta = extractTextFromContentU
            (nullish (optProp deltaRoot ''content'')
               (optProp (optProp choice ''message'') ''content''));
          reasoningChunks = filter (\<lambda>chunk. length chunk > 0)
            [extractReasoningTextU
               (nullish (optProp deltaRoot ''reasoning'')
                  (optProp (optProp choice ''message'') ''reasoning'')),
             extractReasoningTextU
               (nullish (optProp deltaRoot ''reasoning_details'')
                  (optProp (optProp choice ''message'') ''reasoning_details''))];
          reasoningDelta =
            (if length reasoningChunks > 0
             then concat (map snd (filter (\<lambda>(index, chunk). indexOf reasoningChunks chunk = index)
                                     (enumerate 0 reasoningChunks)))
             else [])
      in if length contentDelta > 0 \<or> length reasoningDelta > 0
         then [Delta (if length contentDelta > 0 then Some contentDelta else None)
                     (if length reasoningDelta > 0 then Some reasoningDelta else None)]
         else [])"

text \<open>
  One iteration of the \<open>for\<close> loop: the events pushed for one segment. \<open>JSON.parse\<close> is
  the parameter \<open>parse\<close>, with \<open>None\<close> where it throws; nothing else in the \<open>try\<close> block
  throws.
\<close>

definition segmentEvents :: "(string \<Rightarrow> json option) \<Rightarrow> string \<Rightarrow> stream_event list" where
  "segmentEvents parse segment =
     (case List.find (prefix ''data:'') (js_split [CHR 0x0A] segment) of
        None \<Rightarrow> []
      | Some dataLine \<Rightarrow>
         (let payload = js_trim (drop (length ''data:'') dataLine)
          in if payload = [] then []
             else if payload = ''[DONE]'' then [Done]
             else (case parse payload of
                     Some parsed \<Rightarrow> deltaEvents parsed
                   | None \<Rightarrow> [Error ''Failed to parse streaming chunk.''])))"

text \<open>The \<open>for\<close> loop over the segments, pushing onto \<open>events\<close>.\<close>

fun pushSegments :: "(string \<Rightarrow> json option) \<Rightarrow> stream_event list \<Rightarrow> string list \<Rightarrow> stream_event list" where
  "pushSegments parse events [] = events"
| "pushSegments parse events (segment # segments) =
     pushSegments parse (events @ segmentEvents parse segment) segments"

text \<open>
  \<open>segments\<close> as the loop sees it: \<open>segments.pop()\<close> has removed the last segment when
  the buffer is not terminated.
\<close>

definition isTerminated :: "string \<Rightarrow> bool" where
  "isTerminated buffer = suffix [CHR 0x0A, CHR 0x0A] buffer"

definition loopSegments :: "string \<Rightarrow> string list" where
  "loopSegments buffer =
     (let segments = js_split [CHR 0x0A, CHR 0x0A] buffer
      in if isTerminated buffer then segments else butlast segments)"

record decoded =
  events :: "stream_event list"
  remainder :: string

definition extractEventsFromBuffer :: "(string \<Rightarrow> json option) \<Rightarrow> string \<Rightarrow> decoded" where
  "extractEventsFromBuffer parse buffer =
     (let segments = js_split [CHR 0x0A, CHR 0x0A] buffer;
          remainder = (if isTerminated buffer then []
                       else (case segments of [] \<Rightarrow> [] | _ \<Rightarrow> last segments))
      in \<lparr> events = pushSegments parse [] (loopSegments buffer), remainder = remainder \<rparr>)"

text \<open>
  Decoding chunk by chunk: each chunk is appended to the remainder of the previous call,
  the result is decoded, and its remainder is kept for the next chunk. This is the
  re-feeding of \<open>extractEventsFromBuffer\<close> alone; \<open>sendMessage\<close> feeds the decoder in this
  way and, in addition, empties its buffer when it meets a \<open>done\<close> event.
\<close>

fun decodeChunks :: "(string \<Rightarrow> json option) \<Rightarrow> decoded \<Rightarrow> string list \<Rightarrow> decoded" where
  "decodeChunks parse acc [] = acc"
| "decodeChunks parse acc (chunk # chunks) =
     (let r = extractEventsFromBuffer parse (remainder acc @ chunk)
      in decodeChunks parse \<lparr> events = events acc @ events r, remainder = remainder r \<rparr> chunks)"

text \<open>Before the first chunk the remainder is empty and there are no events.\<close>

definition emptyDecoded :: decoded where
  "emptyDecoded = \<lparr> events = [], remainder = [] \<rparr>"

text \<open>A string without its leading line feeds.\<close>

definition dropLeadingNewlines :: "string \<Rightarrow> string" where
  "dropLeadingNewlines s = dropWhile (\<lambda>c. c = CHR 0x0A) s"

text \<open>
  A stand-in for \<open>JSON.parse\<close> in the concrete examples: it agrees with \<open>JSON.parse\<close> on
  every payload the examples hand to it (the empty string and \<open>{bad\<close> are not JSON).
\<close>

definition exampleParse :: "string \<Rightarrow> json option" where
  \<open>exampleParse payload =
     (if payload = ''{"choices":[{"delta":{"content":"Hi"}}]}''
      then Some (JObj [(''choices'', JArr [JObj [(''delta'', JObj [(''content'', JStr ''Hi'')])]])])
      else if payload = ''{"choices":[{"delta":{"content":{"text":"a","content":"b"}}}]}''
      then Some (JObj [(''choices'', JArr [JObj [(''delta'',
             JObj [(''content'', JObj [(''text'', JStr ''a''), (''content'', JStr ''b'')])])]])])
      else None)\<close>

text \<open>
  The extraction as the specification words it, for comparison with the two extractors
  above: every string leaf under a \<open>content\<close>, \<open>text\<close>, \<open>summary\<close> or \<open>data\<close> field and in
  arrays, concatenated in encounter order.
\<close>

fun specAllLeaves :: "json \<Rightarrow> string" where
  "specAllLeaves (JStr s) = s"
| "specAllLeaves (JArr entries) = concat (map specAllLeaves entries)"
| "specAllLeaves (JObj record) =
     concat (map (\<lambda>(k, v). if k \<in> set [''content'', ''text'', ''summary'', ''data'']
                              then specAllLeaves v else []) record)"
| "specAllLeaves JNull = []"
| "specAllLeaves (JBool b) = []"
| "specAllLeaves (JNum n) = []"

section \<open>Attachment optimizer\<close>

text \<open>
  JavaScript numbers are IEEE 754 doubles. Every double is a rational number, so a number
  is modelled as a rational (as an integer where the code holds a count of bytes or of
  pixels), and every operation whose exact result need not be a double is followed by
  \<open>binary64\<close>, the rounding to the nearest double, ties going to the even significand.
  A decimal literal of the code such as \<open>0.85\<close> is \<open>binary64 (85 / 100)\<close>.
\<close>

subsection \<open>Rounding to a double\<close>

text \<open>The integer nearest to a rational, a tie going to the even one.\<close>

definition roundHalfEven :: "rat \<Rightarrow> int" where
  "roundHalfEven m =
     (let f = \<lfloor>m\<rfloor>; r = m - of_int f
      in if r < 1 / 2 then f else if 1 / 2 < r then f + 1 else if even f then f else f + 1)"

text \<open>
  A positive number is halved or doubled until it lies between \<open>2 ^ 52\<close> and \<open>2 ^ 53\<close>,
  rounded to an integer there, which leaves 53 significant bits, and scaled back. The
  exponent is not bounded: the model is exact for magnitudes in the normal range of the
  doubles, and the numbers of this program (pixel counts below \<open>2 ^ 32\<close>, scale factors
  above \<open>1600 / 2 ^ 32\<close>) stay far inside it.
\<close>

function roundLarge :: "rat \<Rightarrow> rat" where
  "roundLarge x = (if 2 ^ 53 \<le> x then 2 * roundLarge (x / 2) else of_int (roundHalfEven x))"
  by pat_completeness auto
termination
proof (relation "measure (\<lambda>x. nat \<lceil>x\<rceil>)")
  show "wf (measure (\<lambda>x::rat. nat \<lceil>x\<rceil>))" by simp
next
  fix x :: rat
  assume a: "2 ^ 53 \<le> x"
  then have "x / 2 \<le> x - 1" by simp
  then have "\<lceil>x / 2\<rceil> \<le> \<lceil>x - 1\<rceil>" by (rule ceiling_mono)
  then have "\<lceil>x / 2\<rceil> < \<lceil>x\<rceil>" by simp
  moreover have "0 < \<lceil>x\<rceil>" using a by simp
  ultimately show "(x / 2, x) \<in> measure (\<lambda>x. nat \<lceil>x\<rceil>)" by simp
qed

function roundSmall :: "rat \<Rightarrow> rat" where
  "roundSmall x = (if 0 < x \<and> x < 2 ^ 52 then roundSmall (2 * x) / 2 else of_int (roundHalfEven x))"
  by pat_completeness auto
termination
proof (relation "measure (\<lambda>x. nat \<lceil>2 ^ 53 / x\<rceil>)")
  show "wf (measure (\<lambda>x::rat. nat \<lceil>2 ^ 53 / x\<rceil>))" by simp
next
  fix x :: rat
  assume a: "0 < x \<and> x < 2 ^ 52"
  then have "2 < 2 ^ 53 / x" by (simp add: field_simps)
  then have "2 ^ 53 / (2 * x) \<le> 2 ^ 53 / x - 1" by (simp add: field_simps)
  then have "\<lceil>2 ^ 53 / (2 * x)\<rceil> \<le> \<lceil>2 ^ 53 / x - 1\<rceil>" by (rule ceiling_mono)
  then have "\<lceil>2 ^ 53 / (2 * x)\<rceil> < \<lceil>2 ^ 53 / x\<rceil>" by simp
  moreover have "0 < \<lceil>2 ^ 53 / x\<rceil>" using a by simp
  ultimately show "(2 * x, x) \<in> measure (\<lambda>x. nat \<lceil>2 ^ 53 / x\<rceil>)" by simp
qed

declare roundLarge.simps [simp del] roundSmall.simps [simp del]

definition roundMagnitude :: "rat \<Rightarrow> rat" where
  "roundMagnitude x = (if 2 ^ 53 \<le> x then roundLarge x else roundSmall x)"

definition binary64 :: "rat \<Rightarrow> rat" where
  "binary64 x =
     (if x = 0 then 0 else if x < 0 then - roundMagnitude (- x) else roundMagnitude x)"

subsection \<open>Constants\<close>

text \<open>
  \<open>MAX_BASE64_ATTACHMENT_BYTES\<close> is \<open>1.5 * 1024 * 1024\<close>; the two edges are integers.
\<close>

definition MAX_BASE64_ATTACHMENT_BYTES :: int where
  "MAX_BASE64_ATTACHMENT_BYTES = 1572864"

definition MAX_ATTACHMENT_EDGE :: rat where
  "MAX_ATTACHMENT_EDGE = 1600"

definition MIN_ATTACHMENT_EDGE :: rat where
  "MIN_ATTACHMENT_EDGE = 512"

definition DEFAULT_JPEG_QUALITY :: rat where
  "DEFAULT_JPEG_QUALITY = binary64 (85 / 100)"

definition MIN_JPEG_QUALITY :: rat where
  "MIN_JPEG_QUALITY = binary64 (55 / 100)"

definition DOWNSCALE_STEP :: rat where
  "DOWNSCALE_STEP = binary64 (85 / 100)"

subsection \<open>estimateBase64Size\<close>

definition estimateBase64Size :: "string \<Rightarrow> int" where
  "estimateBase64Size dataUrl =
     (let base64 = (case js_split '','' dataUrl of _ # b # _ \<Rightarrow> b | _ \<Rightarrow> [])
      in if base64 = [] then 0
         else (let padding = (if suffix ''=='' base64 then 2
                              else if suffix ''='' base64 then 1 else 0)
               in max 0 ((int (length base64) * 3) div 4 - padding)))"

text \<open>
  The standard base64 encoding (RFC 4648, with padding) of a sequence of bytes: what
  the claim about \<open>estimateBase64Size\<close> takes the encoded portion to be.
\<close>

definition base64Alphabet :: string where
  "base64Alphabet = ''ABCDEFGHIJKLMNOPQRSTUVWXYZabcdefghijklmnopqrstuvwxyz0123456789+/''"

fun base64Encode :: "8 word list \<Rightarrow> string" where
  "base64Encode [] = []"
| "base64Encode [a] =
     [base64Alphabet ! (unat a div 4),
      base64Alphabet ! (unat a mod 4 * 16),
      CHR ''='', CHR ''='']"
| "base64Encode [a, b] =
     [base64Alphabet ! (unat a div 4),
      base64Alphabet ! (unat a mod 4 * 16 + unat b div 16),
      base64Alphabet ! (unat b mod 16 * 4),
      CHR ''='']"
| "base64Encode (a # b # c # rest) =
     [base64Alphabet ! (unat a div 4),
      base64Alphabet ! (unat a mod 4 * 16 + unat b div 16),
      base64Alphabet ! (unat b mod 16 * 4 + unat c div 64),
      base64Alphabet ! (unat c mod 64)] @ base64Encode rest"

subsection \<open>compressImageFile\<close>

text \<open>
  \<open>Math.round\<close> of a double: the nearest integer, a tie going up. It is exact on the
  double it is given: where the code rounds a product, the product is rounded to a
  double first.
\<close>

definition jsRound :: "rat \<Rightarrow> int" where
  "jsRound x = \<lfloor>x + 1 / 2\<rfloor>"

text \<open>
  \<open>Number(x.toFixed(digits))\<close> for a double \<open>x\<close> that is not negative: \<open>toFixed\<close> writes
  the integer \<open>n\<close> for which \<open>n / 10 ^ digits\<close> is nearest to the exact value of \<open>x\<close>, the
  larger one on a tie, with a decimal point before its last \<open>digits\<close> digits, and
  \<open>Number\<close> reads the double nearest to that decimal back.
\<close>

definition toFixedNumber :: "nat \<Rightarrow> rat \<Rightarrow> rat" where
  "toFixedNumber digits x = binary64 (of_int \<lfloor>x * 10 ^ digits + 1 / 2\<rfloor> / 10 ^ digits)"

record image_file =
  fileName :: string
  fileType :: string
  fileSize :: nat

record html_image =
  naturalWidth :: nat
  imageWidth :: nat
  naturalHeight :: nat
  imageHeight :: nat

text \<open>
  What the browser contributes: whether the file decodes to an image, whether the canvas
  has a 2d context, and the data URL \<open>canvas.toDataURL("image/jpeg", quality)\<close> returns
  after the image has been drawn at a width and a height.
\<close>

record browser =
  loadImageFromFile :: "image_file \<Rightarrow> html_image option"
  has2dContext :: bool
  render :: "html_image \<Rightarrow> int \<Rightarrow> int \<Rightarrow> rat \<Rightarrow> string"

record optimized_image_attachment =
  optDataUrl :: string
  optSize :: int
  optType :: string
  optName :: string

text \<open>The variables the loop reads and writes.\<close>

record loop_vars =
  quality :: rat
  currentScale :: rat
  width :: int
  height :: int
  dataUrl :: string
  size_bytes :: int

definition loopCond :: "rat \<Rightarrow> loop_vars \<Rightarrow> bool" where
  "loopCond minScale v \<longleftrightarrow>
     size_bytes v > MAX_BASE64_ATTACHMENT_BYTES
     \<and> (quality v > MIN_JPEG_QUALITY \<or> currentScale v > minScale)"

definition loopBody :: "(int \<Rightarrow> int \<Rightarrow> rat \<Rightarrow> string) \<Rightarrow> nat \<Rightarrow> nat \<Rightarrow> rat \<Rightarrow> loop_vars \<Rightarrow> loop_vars" where
  "loopBody draw originalWidth originalHeight minScale v =
     (let adjusted =
            (if quality v > MIN_JPEG_QUALITY
             then v\<lparr> quality :=
                      max MIN_JPEG_QUALITY
                        (toFixedNumber 2 (binary64 (quality v - binary64 (1 / 10)))) \<rparr>
             else if currentScale v > minScale
             then (let scale = max minScale
                                 (toFixedNumber 4 (binary64 (currentScale v * DOWNSCALE_STEP)))
                   in v\<lparr> currentScale := scale,
                         width := max (jsRound (binary64 (of_nat originalWidth * scale))) 1,
                         height := max (jsRound (binary64 (of_nat originalHeight * scale))) 1 \<rparr>)
             else v);
          url = draw (width adjusted) (height adjusted) (quality adjusted)
      in adjusted\<lparr> dataUrl := url, size_bytes := estimateBase64Size url \<rparr>)"

text \<open>
  The \<open>while\<close> loop, with fuel: \<open>None\<close> when the loop has not left after \<open>fuel\<close>
  iterations.
\<close>

fun compressLoop :: "(int \<Rightarrow> int \<Rightarrow> rat \<Rightarrow> string) \<Rightarrow> nat \<Rightarrow> nat \<Rightarrow> rat \<Rightarrow> nat \<Rightarrow> loop_vars \<Rightarrow> loop_vars option" where
  "compressLoop draw originalWidth originalHeight minScale 0 v =
     (if loopCond minScale v then None else Some v)"
| "compressLoop draw originalWidth originalHeight minScale (Suc fuel) v =
     (if loopCond minScale v
      then compressLoop draw originalWidth originalHeight minScale fuel
             (loopBody draw originalWidth originalHeight minScale v)
      else Some v)"

text \<open>The variables after \<open>n\<close> iterations, \<open>None\<close> when the loop has left before.\<close>

fun afterIterations :: "(int \<Rightarrow> int \<Rightarrow> rat \<Rightarrow> string) \<Rightarrow> nat \<Rightarrow> nat \<Rightarrow> rat \<Rightarrow> nat \<Rightarrow> loop_vars \<Rightarrow> loop_vars option" where
  "afterIterations draw originalWidth originalHeight minScale 0 v = Some v"
| "afterIterations draw originalWidth originalHeight minScale (Suc n) v =
     (if loopCond minScale v
      then afterIterations draw originalWidth originalHeight minScale n
             (loopBody draw originalWidth originalHeight minScale v)
      else None)"

text \<open>
  The scale factors and the variables on entry to the loop. The two dimensions are not
  zero there (the code has thrown otherwise), and they are doubles as they are.
\<close>

definition initialScale :: "nat \<Rightarrow> nat \<Rightarrow> rat" where
  "initialScale originalWidth originalHeight =
     (let scale = min 1 (binary64 (MAX_ATTACHMENT_EDGE / of_nat (max originalWidth originalHeight)))
      in if scale \<le> 0 then 1 else scale)"

definition minScaleOf :: "nat \<Rightarrow> nat \<Rightarrow> rat" where
  "minScaleOf originalWidth originalHeight =
     min 1 (binary64 (MIN_ATTACHMENT_EDGE / of_nat (max originalWidth originalHeight)))"

definition initialVars :: "(int \<Rightarrow> int \<Rightarrow> rat \<Rightarrow> string) \<Rightarrow> nat \<Rightarrow> nat \<Rightarrow> loop_vars" where
  "initialVars draw originalWidth originalHeight =
     (let scale = initialScale originalWidth originalHeight;
          w = max (jsRound (binary64 (of_nat originalWidth * scale))) 1;
          h = max (jsRound (binary64 (of_nat originalHeight * scale))) 1;
          url = draw w h DEFAULT_JPEG_QUALITY
      in \<lparr> quality = DEFAULT_JPEG_QUALITY, currentScale = scale, width = w, height = h,
           dataUrl = url, size_bytes = estimateBase64Size url \<rparr>)"

text \<open>\<open>file.name.replace(/\.[^/.]+$/, "")\<close>: the name without its last extension.\<close>

definition stripExtension :: "string \<Rightarrow> string" where
  "stripExtension name =
     (let ext = takeWhile (\<lambda>c. c \<noteq> CHR ''/'' \<and> c \<noteq> CHR ''.'') (rev name);
          rest = dropWhile (\<lambda>c. c \<noteq> CHR ''/'' \<and> c \<noteq> CHR ''.'') (rev name)
      in case rest of
           c # stem \<Rightarrow> (if c = CHR ''.'' \<and> ext \<noteq> [] then rev stem else name)
         | [] \<Rightarrow> name)"

text \<open>
  The message of the error thrown after the loop;
  \<open>(MAX_BASE64_ATTACHMENT_BYTES / 1024 / 1024).toFixed(1)\<close> is \<open>1.5\<close>.
\<close>

definition maxMb :: string where
  "maxMb = ''1.5''"

definition tooLargeMessage :: "string \<Rightarrow> string" where
  "tooLargeMessage name =
     ''We couldn't compress '' @ name @ '' below '' @ maxMb @ '' MB. Try a smaller image.''"

text \<open>
  The call: \<open>None\<close> when the loop has not left within the fuel, \<open>Some (Inl message)\<close> when
  an error with that message is thrown, \<open>Some (Inr attachment)\<close> when it returns.
\<close>

definition compressImageFile :: "browser \<Rightarrow> nat \<Rightarrow> image_file \<Rightarrow> (string + optimized_image_attachment) option" where
  "compressImageFile b fuel f =
     (case loadImageFromFile b f of
        None \<Rightarrow> Some (Inl ''Unable to decode the selected image.'')
      | Some img \<Rightarrow>
         if \<not> has2dContext b
         then Some (Inl ''Image compression is not supported in this browser.'')
         else
           (let originalWidth = (if naturalWidth img \<noteq> 0 then naturalWidth img else imageWidth img);
                originalHeight = (if naturalHeight img \<noteq> 0 then naturalHeight img else imageHeight img)
            in if originalWidth = 0 \<or> originalHeight = 0
               then Some (Inl ''We couldn't read the image dimensions.'')
               else
                 (case compressLoop (render b img) originalWidth originalHeight
                         (minScaleOf originalWidth originalHeight) fuel
                         (initialVars (render b img) originalWidth originalHeight) of
                    None \<Rightarrow> None
                  | Some v \<Rightarrow>
                     if size_bytes v > MAX_BASE64_ATTACHMENT_BYTES
                     then Some (Inl (tooLargeMessage (fileName f)))
                     else
                       (let baseName = stripExtension (fileName f);
                            name = (if length baseName > 0 then baseName @ ''.jpg''
                                    else fileName f @ ''.jpg'')
                        in Some (Inr \<lparr> optDataUrl = dataUrl v, optSize = size_bytes v,
                                       optType = ''image/jpeg'', optName = name \<rparr>)))))"

text \<open>
  Concrete inputs for the examples: a canvas whose JPEG is 1572867 bytes at every size
  and quality, three bytes over the ceiling, and a browser that decodes every file to an
  image of 5000000 by 5000000 pixels and draws it on that canvas.
\<close>

definition oversizeDraw :: "int \<Rightarrow> int \<Rightarrow> rat \<Rightarrow> string" where
  "oversizeDraw w h q = ''data:image/jpeg;base64,'' @ replicate 2097156 (CHR ''A'')"

definition hugeImageBrowser :: browser where
  "hugeImageBrowser =
     \<lparr> loadImageFromFile = (\<lambda>f. Some \<lparr> naturalWidth = 5000000, imageWidth = 5000000,
                                         naturalHeight = 5000000, imageHeight = 5000000 \<rparr>),
       has2dContext = True,
       render = (\<lambda>img. oversizeDraw) \<rparr>"

text \<open>
  The invariant of the loop: the quality is one of the four doubles \<open>0.85\<close>, \<open>0.75\<close>,
  \<open>0.65\<close> and \<open>0.55\<close>, which the steps of 0.10 reach from the default, and the scale is
  not below the floor scale.
\<close>

definition loopInv :: "rat \<Rightarrow> loop_vars \<Rightarrow> bool" where
  "loopInv minScale v \<longleftrightarrow>
     (quality v = binary64 (85 / 100) \<or> quality v = binary64 (75 / 100)
      \<or> quality v = binary64 (65 / 100) \<or> quality v = binary64 (55 / 100))
     \<and> minScale \<le> currentScale v"

section \<open>Messages\<close>

datatype chat_role = User | Assistant

record chat_attachment =
  attId :: string
  attName :: string
  attSize :: int
  attType :: string
  attDataUrl :: string

text \<open>A \<open>ChatMessage\<close>; an optional field that is absent is \<open>None\<close>.\<close>

record chat_message =
  msgId :: string
  role :: chat_role
  content :: string
  attachments :: "chat_attachment list option"
  reasoning :: "string option"
  reasoningDurationSeconds :: "int option"
  reasoningStartedAt :: "int option"
  reasoningStoppedAt :: "int option"
  isReasoningStreaming :: "bool option"

definition createPlaceholderMessage :: "string \<Rightarrow> chat_message" where
  "createPlaceholderMessage newId =
     \<lparr> msgId = newId, role = Assistant, content = [], attachments = None,
       reasoning = Some [], reasoningDurationSeconds = None, reasoningStartedAt = None,
       reasoningStoppedAt = None, isReasoningStreaming = Some False \<rparr>"

fun findIndex :: "('a \<Rightarrow> bool) \<Rightarrow> 'a list \<Rightarrow> nat option" where
  "findIndex P [] = None"
| "findIndex P (x # xs) = (if P x then Some 0 else map_option Suc (findIndex P xs))"

definition updateMessageById :: "chat_message list \<Rightarrow> string \<Rightarrow> (chat_message \<Rightarrow> chat_message) \<Rightarrow> chat_message list" where
  "updateMessageById messages i updater =
     (case findIndex (\<lambda>message. msgId message = i) messages of
        None \<Rightarrow> messages
      | Some index \<Rightarrow> messages[index := updater (messages ! index)])"

definition formatAssistantMessage :: "string \<Rightarrow> string" where
  "formatAssistantMessage text = js_trimEnd text"

subsection \<open>Folding stream events into the assistant message (sendMessage)\<close>

text \<open>\<open>typeof x === "string" && x.length > 0\<close>\<close>

definition hasText :: "string option \<Rightarrow> bool" where
  "hasText x = (case x of Some s \<Rightarrow> length s > 0 | None \<Rightarrow> False)"

text \<open>
  \<open>Math.max(1, Math.round((stoppedAt - startedAt) / 1000))\<close>, on times in milliseconds.
\<close>

definition elapsedSeconds :: "int \<Rightarrow> int \<Rightarrow> int" where
  "elapsedSeconds startedAt stoppedAt = max 1 (jsRound (of_int (stoppedAt - startedAt) / 1000))"

text \<open>
  The updater of a \<open>delta\<close> event; \<open>now\<close> is what \<open>Date.now()\<close> returns in it.
\<close>

definition foldDelta :: "int \<Rightarrow> string option \<Rightarrow> string option \<Rightarrow> chat_message \<Rightarrow> chat_message" where
  "foldDelta now contentDelta reasoningDelta message =
     (let hasContent = hasText contentDelta;
          hasReasoning = hasText reasoningDelta;
          next = message\<lparr> content :=
                   (case contentDelta of
                      Some c \<Rightarrow> (if hasContent then content message @ c else content message)
                    | None \<Rightarrow> content message) \<rparr>
      in if hasReasoning
         then next\<lparr> reasoning :=
                      Some ((case reasoning message of Some previous \<Rightarrow> previous | None \<Rightarrow> [])
                            @ (case reasoningDelta of Some r \<Rightarrow> r | None \<Rightarrow> [])),
                    reasoningStartedAt :=
                      Some (case reasoningStartedAt message of Some started \<Rightarrow> started | None \<Rightarrow> now),
                    reasoningStoppedAt := Some now,
                    isReasoningStreaming := Some True \<rparr>
         else if hasContent \<and> isReasoningStreaming message = Some True
         then (let flipped = next\<lparr> isReasoningStreaming := Some False \<rparr>
               in case reasoningDurationSeconds flipped of
                    Some d \<Rightarrow> flipped
                  | None \<Rightarrow>
                     (case reasoningStartedAt message of
                        None \<Rightarrow> flipped
                      | Some startedAt \<Rightarrow>
                         (let stoppedAt = (case reasoningStoppedAt message of
                                             Some stopped \<Rightarrow> stopped | None \<Rightarrow> startedAt)
                          in flipped\<lparr> reasoningDurationSeconds :=
                                        Some (elapsedSeconds startedAt stoppedAt) \<rparr>)))
         else next)"

text \<open>The updater that runs when the reader reports the end of the stream.\<close>

definition finalizeStreamEnd :: "int \<Rightarrow> chat_message \<Rightarrow> chat_message" where
  "finalizeStreamEnd now message =
     (let trimmedContent = formatAssistantMessage (content message);
          cleanedReasoning = map_option js_trim (reasoning message);
          startedAt = reasoningStartedAt message;
          stoppedAt = (case reasoningStoppedAt message of
                         Some stopped \<Rightarrow> Some stopped
                       | None \<Rightarrow>
                          (if startedAt \<noteq> None \<and> isReasoningStreaming message = Some True
                           then Some now else None));
          reasoningDuration =
            (case reasoningDurationSeconds message of
               Some d \<Rightarrow> Some d
             | None \<Rightarrow>
                (case startedAt of
                   None \<Rightarrow> None
                 | Some started \<Rightarrow>
                    (case stoppedAt of
                       None \<Rightarrow> None
                     | Some stopped \<Rightarrow>
                        (if stopped \<ge> started then Some (elapsedSeconds started stopped)
                         else None))))
      in message\<lparr> content := trimmedContent,
                  reasoning := (case cleanedReasoning of
                                  Some r \<Rightarrow> (if length r > 0 then Some r else None)
                                | None \<Rightarrow> None),
                  reasoningDurationSeconds := reasoningDuration,
                  reasoningStartedAt := None,
                  reasoningStoppedAt := None,
                  isReasoningStreaming := Some False \<rparr>)"

text \<open>
  The updater of the \<open>catch\<close> block. The content starts with a warning sign (U+26A0,
  U+FE0F), written here as its UTF-8 bytes, and a space.
\<close>

definition warningSign :: string where
  "warningSign = [CHR 0xE2, CHR 0x9A, CHR 0xA0, CHR 0xEF, CHR 0xB8, CHR 0x8F]"

definition finalizeError :: "string \<Rightarrow> chat_message \<Rightarrow> chat_message" where
  "finalizeError fallback message =
     message\<lparr> content := warningSign @ '' '' @ fallback,
              reasoning := None,
              reasoningDurationSeconds := None,
              reasoningStartedAt := None,
              reasoningStoppedAt := None,
              isReasoningStreaming := Some False \<rparr>"

text \<open>
  One event of the \<open>for\<close> loop over the decoded events, at time \<open>now\<close>: a \<open>delta\<close> event
  with text is folded in, a \<open>done\<close> event leaves the message as it is, an \<open>error\<close> event
  throws its text (\<open>Inl\<close>).
\<close>

fun foldStreamEvent :: "int \<Rightarrow> stream_event \<Rightarrow> chat_message \<Rightarrow> string + chat_message" where
  "foldStreamEvent now (Delta contentDelta reasoningDelta) message =
     (if \<not> hasText contentDelta \<and> \<not> hasText reasoningDelta then Inr message
      else Inr (foldDelta now contentDelta reasoningDelta message))"
| "foldStreamEvent now Done message = Inr message"
| "foldStreamEvent now (Error text) message = Inl text"

text \<open>
  The events of a response, each with the time at which it is folded: the message after
  the last event, with the text of the error when one was thrown.
\<close>

fun foldEvents :: "(int \<times> stream_event) list \<Rightarrow> chat_message \<Rightarrow> string option \<times> chat_message" where
  "foldEvents [] message = (None, message)"
| "foldEvents ((now, event) # rest) message =
     (case foldStreamEvent now event message of
        Inl text \<Rightarrow> (Some text, message)
      | Inr next \<Rightarrow> foldEvents rest next)"

text \<open>
  A whole response: the events are folded, then the stream ends at time \<open>endTime\<close>, or
  the thrown error is caught.
\<close>

definition receiveStream :: "(int \<times> stream_event) list \<Rightarrow> int \<Rightarrow> chat_message \<Rightarrow> chat_message" where
  "receiveStream timedEvents endTime message =
     (case foldEvents timedEvents message of
        (Some text, folded) \<Rightarrow> finalizeError text folded
      | (None, folded) \<Rightarrow> finalizeStreamEnd endTime folded)"

section \<open>Request content (src/lib/chat/api.ts)\<close>

datatype chat_request_content_part = TextPart string | ImageUrlPart string

datatype api_content = PlainText string | Parts "chat_request_content_part list"

definition ATTACHMENT_ONLY_FALLBACK_TEXT :: string where
  "ATTACHMENT_ONLY_FALLBACK_TEXT = ''Please analyze the attached image(s) and describe what you see.''"

definition mapMessageToApiContent :: "chat_message \<Rightarrow> api_content" where
  "mapMessageToApiContent message =
     (let text = content message;
          trimmedText = js_trim text;
          attached = (case attachments message of Some list \<Rightarrow> list | None \<Rightarrow> []);
          textParts =
            (if length trimmedText > 0 then [TextPart text]
             else if length attached > 0 then [TextPart ATTACHMENT_ONLY_FALLBACK_TEXT]
             else []);
          parts = textParts @ map (\<lambda>attachment. ImageUrlPart (attDataUrl attachment)) attached
      in case parts of
           [] \<Rightarrow> PlainText []
         | [TextPart only] \<Rightarrow> PlainText only
         | _ \<Rightarrow> Parts parts)"

text \<open>
  A bound on the iterations still to come: the steps of 0.10 that separate the quality
  from its floor, and, while the scale is above the floor scale, the number of
  ten-thousandths the scale spans. The quality is compared with the midpoints between
  its four values, and the scale is taken a hundredth of a ten-thousandth lower, so
  that the doubles nearest to a decimal count as that decimal.
\<close>

definition qualitySteps :: "rat \<Rightarrow> nat" where
  "qualitySteps q =
     (if q > 8 / 10 then 3 else if q > 7 / 10 then 2 else if q > 6 / 10 then 1 else 0)"

definition scaleSteps :: "rat \<Rightarrow> rat \<Rightarrow> nat" where
  "scaleSteps minScale s = (if s \<le> minScale then 0 else nat \<lceil>s * 10000 - 1 / 100\<rceil>)"

definition loopSteps :: "rat \<Rightarrow> loop_vars \<Rightarrow> nat" where
  "loopSteps minScale v = qualitySteps (quality v) + scaleSteps minScale (currentScale v)"

section \<open>Properties of the size estimate\<close>

lemma js_split_char_absent: "c \<notin> set s \<Longrightarrow> js_split [c] s = [s]"
  by (induction s) auto

lemma js_split_char_first:
  "c \<notin> set h \<Longrightarrow> js_split [c] (h @ c # b) = h # js_split [c] b"
  by (induction h) auto

lemma base64Alphabet_nth:
  "i < 64 \<Longrightarrow> base64Alphabet ! i \<in> set base64Alphabet"
proof -
  have "length base64Alphabet = 64" by (simp add: base64Alphabet_def)
  then show "i < 64 \<Longrightarrow> base64Alphabet ! i \<in> set base64Alphabet"
    using nth_mem[of i base64Alphabet] by simp
qed

lemma base64Alphabet_plain:
  "x \<in> set base64Alphabet \<Longrightarrow> x \<noteq> CHR '','' \<and> x \<noteq> CHR ''=''"
  by (auto simp: base64Alphabet_def)

lemma base64_digit:
  "i < 64 \<Longrightarrow> base64Alphabet ! i \<noteq> CHR '','' \<and> base64Alphabet ! i \<noteq> CHR ''=''
     \<and> CHR '','' \<noteq> base64Alphabet ! i \<and> CHR ''='' \<noteq> base64Alphabet ! i"
  using base64Alphabet_nth[of i] base64Alphabet_plain[of "base64Alphabet ! i"] by metis

lemma byte_bound: "unat (a :: 8 word) < 256"
  using unsigned_less[of a, where ?'a = nat] by simp

lemma sextet_bounds:
  fixes a b c :: "8 word"
  shows "unat a div 4 < 64" "unat a mod 4 * 16 < 64" "unat a mod 4 * 16 + unat b div 16 < 64"
    "unat b mod 16 * 4 < 64" "unat b mod 16 * 4 + unat c div 64 < 64" "unat c mod 64 < 64"
  using byte_bound[of a] byte_bound[of b] byte_bound[of c] by auto

lemma base64Encode_no_comma: "CHR '','' \<notin> set (base64Encode p)"
  by (induction p rule: base64Encode.induct) (simp_all add: base64_digit sextet_bounds)

lemma base64Encode_length: "length (base64Encode p) = 4 * ((length p + 2) div 3)"
proof (induction p rule: base64Encode.induct)
  case (4 a b c rest)
  have "(length (a # b # c # rest) + 2) div 3 = (length rest + 2) div 3 + 1" by simp
  then have d: "4 * ((length (a # b # c # rest) + 2) div 3) = 4 + 4 * ((length rest + 2) div 3)"
    by (simp only: distrib_left mult_1_right add.commute)
  have "length (base64Encode (a # b # c # rest)) = 4 + 4 * ((length rest + 2) div 3)"
    using 4 by simp
  with d show ?case by (simp only:)
qed simp_all

lemma base64Encode_empty: "base64Encode p = [] \<longleftrightarrow> p = []"
  by (cases p rule: base64Encode.cases) simp_all

lemma suffix_append_long:
  assumes "length x \<le> length zs"
  shows "suffix x (ys @ zs) \<longleftrightarrow> suffix x zs"
proof
  assume "suffix x (ys @ zs)"
  then consider "suffix x zs" | xs' where "x = xs' @ zs" "suffix xs' ys"
    by (auto simp: suffix_append)
  then show "suffix x zs"
  proof cases
    case 1
    then show ?thesis .
  next
    case 2
    with assms have "xs' = []" by simp
    with 2 show ?thesis by simp
  qed
next
  assume "suffix x zs"
  then show "suffix x (ys @ zs)" by (simp add: suffix_appendI)
qed


lemma base64Encode_padding:
  "(suffix ''=='' (base64Encode p) \<longleftrightarrow> length p mod 3 = 1)
   \<and> (suffix ''='' (base64Encode p) \<longleftrightarrow> length p mod 3 \<noteq> 0)"
proof (induction p rule: base64Encode.induct)
  case 1
  show ?case by simp
next
  case (2 a)
  show ?case by (simp add: suffix_to_prefix)
next
  case (3 a b)
  show ?case using base64_digit[OF sextet_bounds(4)[of b]] by (simp add: suffix_to_prefix)
next
  case (4 a b c rest)
  show ?case
  proof (cases rest)
    case Nil
    then show ?thesis
      using base64_digit[OF sextet_bounds(6)[of c]] by (simp add: suffix_to_prefix)
  next
    case (Cons r rs)
    then have "base64Encode rest \<noteq> []" by (simp add: base64Encode_empty)
    then have "4 \<le> length (base64Encode rest)"
      using base64Encode_length[of rest] by (cases "(length rest + 2) div 3") auto
    then have l: "length ''=='' \<le> length (base64Encode rest)" "length ''='' \<le> length (base64Encode rest)"
      by simp_all
    have m: "length (a # b # c # rest) mod 3 = length rest mod 3" by simp
    have e: "base64Encode (a # b # c # rest)
             = [base64Alphabet ! (unat a div 4),
                base64Alphabet ! (unat a mod 4 * 16 + unat b div 16),
                base64Alphabet ! (unat b mod 16 * 4 + unat c div 64),
                base64Alphabet ! (unat c mod 64)] @ base64Encode rest"
      by simp
    show ?thesis
      unfolding e m suffix_append_long[OF l(1)] suffix_append_long[OF l(2)] using 4 .
  qed
qed

lemma four_thirds: "(int (4 * k) * 3) div 4 = 3 * int k"
proof -
  have "int (4 * k) * 3 = 4 * (3 * int k)" by simp
  then show ?thesis by (simp only: nonzero_mult_div_cancel_left)
qed

lemma base64_length_arith:
  fixes L :: nat
  shows "L mod 3 = 1 \<Longrightarrow> (int (4 * ((L + 2) div 3)) * 3) div 4 - 2 = int L"
    and "L mod 3 = 2 \<Longrightarrow> (int (4 * ((L + 2) div 3)) * 3) div 4 - 1 = int L"
    and "L mod 3 = 0 \<Longrightarrow> (int (4 * ((L + 2) div 3)) * 3) div 4 = int L"
proof -
  have d: "L = 3 * (L div 3) + L mod 3" by simp
  {
    assume m: "L mod 3 = 1"
    then have "L = 3 * (L div 3) + 1" using d by simp
    then have "(L + 2) div 3 = L div 3 + 1" by arith
    then show "(int (4 * ((L + 2) div 3)) * 3) div 4 - 2 = int L"
      unfolding four_thirds using \<open>L = 3 * (L div 3) + 1\<close> by simp
  }
  {
    assume m: "L mod 3 = 2"
    then have "L = 3 * (L div 3) + 2" using d by simp
    then have "(L + 2) div 3 = L div 3 + 1" by arith
    then show "(int (4 * ((L + 2) div 3)) * 3) div 4 - 1 = int L"
      unfolding four_thirds using \<open>L = 3 * (L div 3) + 2\<close> by simp
  }
  {
    assume m: "L mod 3 = 0"
    then have "L = 3 * (L div 3)" using d by simp
    then have "(L + 2) div 3 = L div 3" by arith
    then show "(int (4 * ((L + 2) div 3)) * 3) div 4 = int L"
      unfolding four_thirds using \<open>L = 3 * (L div 3)\<close> by simp
  }
qed

text \<open>
  Claim C8: for a data URL whose portion after the first comma is the standard base64
  encoding of a payload of any length, with two, one or no padding characters,
  \<open>estimateBase64Size\<close> returns the length of the payload.
\<close>

theorem estimateBase64Size_exact:
  assumes "CHR '','' \<notin> set header"
  shows "estimateBase64Size (header @ '','' @ base64Encode payload) = int (length payload)"
proof -
  have sp: "js_split '','' (header @ '','' @ base64Encode payload) = [header, base64Encode payload]"
    using js_split_char_first[OF assms, of "base64Encode payload"]
      js_split_char_absent[OF base64Encode_no_comma, of payload] by simp
  show ?thesis
  proof (cases "payload = []")
    case True
    with sp show ?thesis by (simp add: estimateBase64Size_def)
  next
    case False
    then have ne: "base64Encode payload \<noteq> []" by (simp add: base64Encode_empty)
    consider "length payload mod 3 = 1" | "length payload mod 3 = 2" | "length payload mod 3 = 0"
      by arith
    then show ?thesis
    proof cases
      case 1
      then have "suffix ''=='' (base64Encode payload)" using base64Encode_padding by blast
      with sp ne base64_length_arith(1)[OF 1] show ?thesis
        by (simp add: estimateBase64Size_def base64Encode_length)
    next
      case 2
      then have "\<not> suffix ''=='' (base64Encode payload)" "suffix ''='' (base64Encode payload)"
        using base64Encode_padding[of payload] by simp_all
      with sp ne base64_length_arith(2)[OF 2] show ?thesis
        by (simp add: estimateBase64Size_def base64Encode_length)
    next
      case 3
      then have "\<not> suffix ''=='' (base64Encode payload)" "\<not> suffix ''='' (base64Encode payload)"
        using base64Encode_padding[of payload] by simp_all
      with sp ne base64_length_arith(3)[OF 3] show ?thesis
        by (simp add: estimateBase64Size_def base64Encode_length)
    qed
  qed
qed

text \<open>
  Claim C8 at payloads of four, five and three bytes, encoded with two, one and no
  padding characters.
\<close>

theorem estimateBase64Size_exact_witness:
  "CHR '','' \<notin> set ''data:image/jpeg;base64''
   \<and> base64Encode [77, 97, 110, 33] = ''TWFuIQ==''
   \<and> estimateBase64Size (''data:image/jpeg;base64'' @ '','' @ ''TWFuIQ=='') = 4
   \<and> base64Encode [77, 97, 110, 33, 33] = ''TWFuISE=''
   \<and> estimateBase64Size (''data:image/jpeg;base64'' @ '','' @ ''TWFuISE='') = 5
   \<and> base64Encode [77, 97, 110] = ''TWFu''
   \<and> estimateBase64Size (''data:image/jpeg;base64'' @ '','' @ ''TWFu'') = 3"
proof -
  have h: "CHR '','' \<notin> set ''data:image/jpeg;base64''" by simp
  have e1: "base64Encode [77, 97, 110, 33] = ''TWFuIQ==''" by (simp add: base64Alphabet_def)
  have e2: "base64Encode [77, 97, 110, 33, 33] = ''TWFuISE=''" by (simp add: base64Alphabet_def)
  have e3: "base64Encode [77, 97, 110] = ''TWFu''" by (simp add: base64Alphabet_def)
  show ?thesis
    using estimateBase64Size_exact[OF h, of "[77, 97, 110, 33]"]
      estimateBase64Size_exact[OF h, of "[77, 97, 110, 33, 33]"]
      estimateBase64Size_exact[OF h, of "[77, 97, 110]"] h e1 e2 e3
    by simp
qed

section \<open>Properties of the rounding to a double\<close>

lemma roundHalfEven_near:
  "\<bar>of_int (roundHalfEven m) - m\<bar> \<le> 1 / 2"
proof -
  define r where "r = m - of_int \<lfloor>m\<rfloor>"
  have r0: "0 \<le> r" and r1: "r < 1" unfolding r_def by linarith+
  have m: "m = of_int \<lfloor>m\<rfloor> + r" unfolding r_def by simp
  consider "r < 1 / 2" | "1 / 2 < r" | "r = 1 / 2" by linarith
  then show ?thesis
  proof cases
    case 1
    then have "roundHalfEven m = \<lfloor>m\<rfloor>"
      unfolding roundHalfEven_def Let_def r_def[symmetric] by simp
    then have "of_int (roundHalfEven m) - m = - r" unfolding r_def by simp
    with r0 1 show ?thesis by simp
  next
    case 2
    then have "roundHalfEven m = \<lfloor>m\<rfloor> + 1"
      unfolding roundHalfEven_def Let_def r_def[symmetric] by simp
    then have "of_int (roundHalfEven m) - m = 1 - r" unfolding r_def by simp
    with r1 2 show ?thesis by simp
  next
    case 3
    then have "roundHalfEven m = \<lfloor>m\<rfloor> \<or> roundHalfEven m = \<lfloor>m\<rfloor> + 1"
      unfolding roundHalfEven_def Let_def r_def[symmetric] by simp
    then have "of_int (roundHalfEven m) - m = - r \<or> of_int (roundHalfEven m) - m = 1 - r"
      unfolding r_def by auto
    with 3 show ?thesis by auto
  qed
qed

lemma roundHalfEven_of_int: "roundHalfEven (of_int z) = z"
  by (simp add: roundHalfEven_def)

lemma roundHalfEven_mono:
  assumes "m \<le> m'"
  shows "roundHalfEven m \<le> roundHalfEven m'"
proof (rule ccontr)
  assume "\<not> roundHalfEven m \<le> roundHalfEven m'"
  then have "roundHalfEven m' + 1 \<le> roundHalfEven m" by simp
  then have i: "(of_int (roundHalfEven m') :: rat) + 1 \<le> of_int (roundHalfEven m)"
    by (metis of_int_1 of_int_add of_int_le_iff)
  have "of_int (roundHalfEven m) - 1 / 2 \<le> m"
    using roundHalfEven_near[of m] by linarith
  moreover have "m' \<le> of_int (roundHalfEven m') + 1 / 2"
    using roundHalfEven_near[of m'] by linarith
  ultimately have "m' \<le> m" using i by linarith
  with assms have "m = m'" by simp
  with \<open>\<not> roundHalfEven m \<le> roundHalfEven m'\<close> show False by simp
qed

lemma roundSmall_scaled:
  "0 < x \<Longrightarrow> 2 ^ 52 \<le> x * 2 ^ n \<Longrightarrow> x * 2 ^ n < 2 ^ 53 \<Longrightarrow>
   roundSmall x = of_int (roundHalfEven (x * 2 ^ n)) / 2 ^ n"
proof (induction n arbitrary: x)
  case 0
  then show ?case by (simp add: roundSmall.simps)
next
  case (Suc n)
  have "(1::rat) \<le> 2 ^ n" by simp
  then have "x * 2 \<le> x * 2 ^ Suc n" using Suc.prems(1) by simp
  with Suc.prems(3) have "x < 2 ^ 52" by simp
  then have "roundSmall x = roundSmall (2 * x) / 2"
    using Suc.prems(1) by (simp add: roundSmall.simps)
  moreover have "roundSmall (2 * x) = of_int (roundHalfEven (2 * x * 2 ^ n)) / 2 ^ n"
    using Suc.prems by (intro Suc.IH) (simp_all add: mult.assoc mult.left_commute)
  ultimately show ?case by (simp add: mult.assoc mult.left_commute)
qed

lemma roundSmall_scale_exists:
  "0 < (x::rat) \<Longrightarrow> x < 2 ^ 53 \<Longrightarrow> \<exists>n. 2 ^ 52 \<le> x * 2 ^ n \<and> x * 2 ^ n < 2 ^ 53"
proof (induction x rule: roundSmall.induct)
  case (1 x)
  show ?case
  proof (cases "x < 2 ^ 52")
    case True
    then have "\<exists>n. 2 ^ 52 \<le> 2 * x * 2 ^ n \<and> 2 * x * 2 ^ n < 2 ^ 53"
      using 1 by simp
    then obtain n where "2 ^ 52 \<le> 2 * x * 2 ^ n \<and> 2 * x * 2 ^ n < 2 ^ 53" by blast
    then have "2 ^ 52 \<le> x * 2 ^ Suc n \<and> x * 2 ^ Suc n < 2 ^ 53"
      by (simp add: mult.assoc mult.left_commute)
    then show ?thesis by blast
  next
    case False
    then have "2 ^ 52 \<le> x * 2 ^ 0 \<and> x * 2 ^ 0 < 2 ^ 53" using 1(3) by simp
    then show ?thesis by blast
  qed
qed

lemma roundLarge_scaled:
  "2 ^ 52 \<le> x / 2 ^ n \<Longrightarrow> x / 2 ^ n < 2 ^ 53 \<Longrightarrow>
   roundLarge x = of_int (roundHalfEven (x / 2 ^ n)) * 2 ^ n"
proof (induction n arbitrary: x)
  case 0
  then show ?case by (simp add: roundLarge.simps)
next
  case (Suc n)
  have "(1::rat) \<le> 2 ^ n" by simp
  have a: "2 ^ 52 * 2 ^ Suc n \<le> x" using Suc.prems(1) by (simp add: field_simps)
  have "(2::rat) ^ 53 = 2 ^ 53 * 1" by simp
  also have "\<dots> \<le> 2 ^ 53 * 2 ^ n" by (intro mult_left_mono) simp_all
  also have "\<dots> = 2 ^ 52 * 2 ^ Suc n" by simp
  also have "\<dots> \<le> x" by (rule a)
  finally have "2 ^ 53 \<le> x" .
  then have "roundLarge x = 2 * roundLarge (x / 2)" by (simp add: roundLarge.simps)
  moreover have "roundLarge (x / 2) = of_int (roundHalfEven (x / 2 / 2 ^ n)) * 2 ^ n"
    using Suc.prems by (intro Suc.IH) (simp_all add: field_simps)
  ultimately show ?case by (simp add: field_simps)
qed

lemma roundLarge_scale_exists:
  "2 ^ 53 \<le> (x::rat) \<Longrightarrow> \<exists>n. 2 ^ 52 \<le> x / 2 ^ n \<and> x / 2 ^ n < 2 ^ 53"
proof (induction x rule: roundLarge.induct)
  case (1 x)
  show ?case
  proof (cases "2 ^ 53 \<le> x / 2")
    case True
    then have "\<exists>n. 2 ^ 52 \<le> x / 2 / 2 ^ n \<and> x / 2 / 2 ^ n < 2 ^ 53"
      using 1 by simp
    then obtain n where "2 ^ 52 \<le> x / 2 / 2 ^ n \<and> x / 2 / 2 ^ n < 2 ^ 53" by blast
    then have "2 ^ 52 \<le> x / 2 ^ Suc n \<and> x / 2 ^ Suc n < 2 ^ 53"
      by (simp add: field_simps)
    then show ?thesis by blast
  next
    case False
    then have "2 ^ 52 \<le> x / 2 ^ Suc 0 \<and> x / 2 ^ Suc 0 < 2 ^ 53" using 1(2) by simp
    then show ?thesis by blast
  qed
qed


lemma roundMagnitude_scaled:
  assumes "0 < x"
  shows "\<exists>k::int. 2 ^ 52 \<le> x / 2 powi k \<and> x / 2 powi k < 2 ^ 53
           \<and> roundMagnitude x = of_int (roundHalfEven (x / 2 powi k)) * 2 powi k"
proof (cases "2 ^ 53 \<le> x")
  case True
  then obtain n where n: "2 ^ 52 \<le> x / 2 ^ n" "x / 2 ^ n < 2 ^ 53"
    using roundLarge_scale_exists by blast
  have "roundMagnitude x = of_int (roundHalfEven (x / 2 ^ n)) * 2 ^ n"
    using True roundLarge_scaled[OF n] by (simp add: roundMagnitude_def)
  then have "2 ^ 52 \<le> x / 2 powi (int n) \<and> x / 2 powi (int n) < 2 ^ 53
           \<and> roundMagnitude x = of_int (roundHalfEven (x / 2 powi (int n))) * 2 powi (int n)"
    using n by simp
  then show ?thesis by blast
next
  case False
  then have "x < 2 ^ 53" by simp
  then obtain n where n: "2 ^ 52 \<le> x * 2 ^ n" "x * 2 ^ n < 2 ^ 53"
    using roundSmall_scale_exists[OF assms] by blast
  have p: "x / 2 powi (- int n) = x * 2 ^ n"
    by (simp add: power_int_minus divide_inverse)
  have "roundMagnitude x = of_int (roundHalfEven (x * 2 ^ n)) / 2 ^ n"
    using False roundSmall_scaled[OF assms n] by (simp add: roundMagnitude_def)
  also have "\<dots> = of_int (roundHalfEven (x * 2 ^ n)) * 2 powi (- int n)"
    by (simp add: power_int_minus divide_inverse)
  finally have "2 ^ 52 \<le> x / 2 powi (- int n) \<and> x / 2 powi (- int n) < 2 ^ 53
           \<and> roundMagnitude x = of_int (roundHalfEven (x / 2 powi (- int n))) * 2 powi (- int n)"
    unfolding p using n by simp
  then show ?thesis by blast
qed

lemma roundHalfEven_range:
  assumes "2 ^ 52 \<le> m" "m < 2 ^ 53"
  shows "(2 ^ 52 :: rat) \<le> of_int (roundHalfEven m)" "(of_int (roundHalfEven m) :: rat) \<le> 2 ^ 53"
proof -
  have "roundHalfEven (of_int (2 ^ 52)) \<le> roundHalfEven m"
    using assms(1) by (intro roundHalfEven_mono) simp
  then have "2 ^ 52 \<le> roundHalfEven m" by (simp only: roundHalfEven_of_int)
  then show "(2 ^ 52 :: rat) \<le> of_int (roundHalfEven m)"
    by (metis of_int_le_iff of_int_numeral of_int_power)
  have "roundHalfEven m \<le> roundHalfEven (of_int (2 ^ 53))"
    using assms(2) by (intro roundHalfEven_mono) simp
  then have "roundHalfEven m \<le> 2 ^ 53" by (simp only: roundHalfEven_of_int)
  then show "(of_int (roundHalfEven m) :: rat) \<le> 2 ^ 53"
    by (metis of_int_le_iff of_int_numeral of_int_power)
qed

lemma roundMagnitude_mono:
  assumes "0 < x" "x \<le> y"
  shows "roundMagnitude x \<le> roundMagnitude y"
proof -
  have ypos: "0 < y" using assms by simp
  obtain k where k: "2 ^ 52 \<le> x / 2 powi k" "x / 2 powi k < 2 ^ 53"
    "roundMagnitude x = of_int (roundHalfEven (x / 2 powi k)) * 2 powi k"
    using roundMagnitude_scaled[OF assms(1)] by blast
  obtain l where l: "2 ^ 52 \<le> y / 2 powi l" "y / 2 powi l < 2 ^ 53"
    "roundMagnitude y = of_int (roundHalfEven (y / 2 powi l)) * 2 powi l"
    using roundMagnitude_scaled[OF ypos] by blast
  have pk: "(0::rat) < 2 powi k" and pl: "(0::rat) < 2 powi l" by simp_all
  have xk: "2 ^ 52 * 2 powi k \<le> x" using k(1) pk by (simp add: field_simps)
  have yl: "y < 2 ^ 53 * 2 powi l" using l(2) pl by (simp add: field_simps)
  have kl: "k \<le> l"
  proof (rule ccontr)
    assume "\<not> k \<le> l"
    then have "l + 1 \<le> k" by simp
    then have "(2::rat) powi (l + 1) \<le> 2 powi k" by (intro power_int_increasing) simp_all
    then have "2 * 2 powi l \<le> (2::rat) powi k" by (simp add: power_int_add_1')
    then have "2 ^ 53 * 2 powi l \<le> 2 ^ 52 * (2::rat) powi k" by simp
    with xk yl assms(2) show False by linarith
  qed
  show ?thesis
  proof (cases "k = l")
    case True
    have "x / 2 powi l \<le> y / 2 powi l" using assms(2) pl by (simp add: divide_right_mono)
    then have "roundHalfEven (x / 2 powi l) \<le> roundHalfEven (y / 2 powi l)"
      by (rule roundHalfEven_mono)
    then have "(of_int (roundHalfEven (x / 2 powi l)) :: rat) \<le> of_int (roundHalfEven (y / 2 powi l))"
      by simp
    then show ?thesis unfolding k(3) l(3) True using pl by (simp add: mult_right_mono)
  next
    case False
    with kl have "k + 1 \<le> l" by simp
    then have "(2::rat) powi (k + 1) \<le> 2 powi l" by (intro power_int_increasing) simp_all
    then have s: "2 * 2 powi k \<le> (2::rat) powi l" by (simp add: power_int_add_1')
    have "roundMagnitude x \<le> 2 ^ 53 * 2 powi k"
      unfolding k(3) using roundHalfEven_range(2)[OF k(1,2)] pk by (simp add: mult_right_mono)
    also have "\<dots> \<le> 2 ^ 52 * 2 powi l" using s by simp
    also have "\<dots> \<le> roundMagnitude y"
      unfolding l(3) using roundHalfEven_range(1)[OF l(1,2)] pl by (simp add: mult_right_mono)
    finally show ?thesis .
  qed
qed

lemma roundMagnitude_pos:
  assumes "0 < x"
  shows "0 < roundMagnitude x"
proof -
  obtain k where k: "2 ^ 52 \<le> x / 2 powi k" "x / 2 powi k < 2 ^ 53"
    "roundMagnitude x = of_int (roundHalfEven (x / 2 powi k)) * 2 powi k"
    using roundMagnitude_scaled[OF assms] by blast
  have "(0::rat) < 2 ^ 52" by simp
  also have "\<dots> \<le> of_int (roundHalfEven (x / 2 powi k))"
    using k(1,2) by (rule roundHalfEven_range(1))
  finally have "(0::rat) < of_int (roundHalfEven (x / 2 powi k))" .
  then show ?thesis unfolding k(3) by simp
qed

lemma roundMagnitude_near:
  assumes "0 < x"
  shows "\<bar>roundMagnitude x - x\<bar> \<le> x / 2 ^ 53"
proof -
  obtain k where k: "2 ^ 52 \<le> x / 2 powi k" "x / 2 powi k < 2 ^ 53"
    "roundMagnitude x = of_int (roundHalfEven (x / 2 powi k)) * 2 powi k"
    using roundMagnitude_scaled[OF assms] by blast
  have pk: "(0::rat) < 2 powi k" by simp
  have x: "x = x / 2 powi k * 2 powi k" by simp
  have "roundMagnitude x - x = (of_int (roundHalfEven (x / 2 powi k)) - x / 2 powi k) * 2 powi k"
    unfolding k(3) by (simp add: algebra_simps)
  then have "\<bar>roundMagnitude x - x\<bar> = \<bar>of_int (roundHalfEven (x / 2 powi k)) - x / 2 powi k\<bar> * 2 powi k"
    using pk by (simp add: abs_mult)
  also have "\<dots> \<le> 1 / 2 * 2 powi k"
    using roundHalfEven_near[of "x / 2 powi k"] pk by (intro mult_right_mono) simp_all
  also have "\<dots> \<le> x / 2 ^ 53"
  proof -
    have "2 ^ 52 * 2 powi k \<le> x" using k(1) pk by (simp add: field_simps)
    then show ?thesis by (simp add: field_simps)
  qed
  finally show ?thesis .
qed

lemma binary64_mono:
  assumes "0 < x" "x \<le> y"
  shows "binary64 x \<le> binary64 y"
  using roundMagnitude_mono[OF assms] assms by (simp add: binary64_def)

lemma binary64_pos: "0 < x \<Longrightarrow> 0 < binary64 x"
  using roundMagnitude_pos[of x] by (simp add: binary64_def)

lemma binary64_near: "0 < x \<Longrightarrow> \<bar>binary64 x - x\<bar> \<le> x / 2 ^ 53"
  using roundMagnitude_near[of x] by (simp add: binary64_def)

lemma binary64_small:
  assumes "0 < x" "2 ^ 52 \<le> x * 2 ^ n" "x * 2 ^ n < 2 ^ 53"
  shows "binary64 x = of_int (roundHalfEven (x * 2 ^ n)) / 2 ^ n"
proof -
  have "(1::rat) \<le> 2 ^ n" by simp
  then have "x * 1 \<le> x * 2 ^ n" using assms(1) by (intro mult_left_mono) simp_all
  with assms(3) have "x < 2 ^ 53" by simp
  then show ?thesis
    using assms roundSmall_scaled[OF assms] by (simp add: binary64_def roundMagnitude_def)
qed

lemma binary64_large:
  assumes "2 ^ 52 \<le> x / 2 ^ n" "x / 2 ^ n < 2 ^ 53"
  shows "binary64 x = of_int (roundHalfEven (x / 2 ^ n)) * 2 ^ n"
proof -
  have p: "0 < x / 2 ^ n" using assms(1) by (rule less_le_trans[rotated]) simp
  then have x: "0 < x" by (simp add: zero_less_divide_iff)
  show ?thesis
  proof (cases "2 ^ 53 \<le> x")
    case True
    then show ?thesis using x roundLarge_scaled[OF assms] by (simp add: binary64_def roundMagnitude_def)
  next
    case False
    have "n = 0"
    proof (rule ccontr)
      assume "n \<noteq> 0"
      then obtain m where "n = Suc m" by (cases n) auto
      then have a: "2 ^ 52 * 2 ^ Suc m \<le> x" using assms(1) by (simp add: field_simps)
      have "(2::rat) ^ 53 = 2 ^ 53 * 1" by simp
      also have "\<dots> \<le> 2 ^ 53 * 2 ^ m" by (intro mult_left_mono) simp_all
      also have "\<dots> = 2 ^ 52 * 2 ^ Suc m" by simp
      also have "\<dots> \<le> x" by (rule a)
      finally have "2 ^ 53 \<le> x" .
      with False show False by simp
    qed
    then show ?thesis
      using x False assms by (simp add: binary64_def roundMagnitude_def roundSmall.simps)
  qed
qed

lemma floor_numeral_div: "\<lfloor>(numeral a :: rat) / numeral b\<rfloor> = numeral a div numeral b"
  using floor_divide_of_int_eq[of "numeral a" "numeral b", where ?'a = rat] by simp

text \<open>
  Rules that evaluate \<open>binary64\<close> at a number whose binary exponent is one of those
  the examples meet.
\<close>

lemmas binary64_eval =
  binary64_small[of _ 42] binary64_small[of _ 43] binary64_small[of _ 47]
  binary64_small[of _ 53] binary64_small[of _ 54] binary64_small[of _ 55] binary64_small[of _ 56]
  binary64_small[of _ 64] binary64_small[of _ 66]
  roundHalfEven_def floor_numeral_div Let_def

section \<open>Properties of the compression loop\<close>

lemma estimate_replicate:
  assumes "0 < n"
  shows "estimateBase64Size (''data:image/jpeg;base64,'' @ replicate n (CHR ''A'')) = (int n * 3) div 4"
proof -
  have h: "CHR '','' \<notin> set ''data:image/jpeg;base64''" by simp
  have a: "CHR '','' \<notin> set (replicate n (CHR ''A''))" by simp
  have sp: "js_split '','' (''data:image/jpeg;base64'' @ CHR '','' # replicate n (CHR ''A''))
            = [''data:image/jpeg;base64'', replicate n (CHR ''A'')]"
    unfolding js_split_char_first[OF h] js_split_char_absent[OF a] ..
  have ne: "replicate n (CHR ''A'') \<noteq> []" using assms by simp
  have l: "last (replicate n (CHR ''A'')) = CHR ''A''" using assms by (cases n) simp_all
  have s1: "\<not> suffix ''='' (replicate n (CHR ''A''))"
  proof
    assume "suffix ''='' (replicate n (CHR ''A''))"
    then obtain p where "replicate n (CHR ''A'') = p @ ''=''" by (auto simp: suffix_def)
    then have "last (replicate n (CHR ''A'')) = CHR ''=''" by simp
    with l show False by simp
  qed
  have s2: "\<not> suffix ''=='' (replicate n (CHR ''A''))"
  proof
    assume "suffix ''=='' (replicate n (CHR ''A''))"
    then obtain p where "replicate n (CHR ''A'') = p @ ''==''" by (auto simp: suffix_def)
    then have "last (replicate n (CHR ''A'')) = CHR ''=''" by simp
    with l show False by simp
  qed
  have "estimateBase64Size (''data:image/jpeg;base64'' @ CHR '','' # replicate n (CHR ''A'')) = (int n * 3) div 4"
    unfolding estimateBase64Size_def sp using ne s1 s2 by (simp add: Let_def)
  then show ?thesis by simp
qed

lemma oversizeDraw_size: "estimateBase64Size (oversizeDraw w h q) = 1572867"
  unfolding oversizeDraw_def using estimate_replicate[of 2097156] by simp

lemma quality_values:
  "binary64 (85 / 100) = 7656119366529843 / 9007199254740992"
  "binary64 (75 / 100) = 3 / 4"
  "binary64 (65 / 100) = 5854679515581645 / 9007199254740992"
  "binary64 (55 / 100) = 2476979795053773 / 4503599627370496"
  "binary64 (1 / 10) = 3602879701896397 / 36028797018963968"
  by (simp_all add: binary64_eval)

lemma quality_steps:
  "toFixedNumber 2 (binary64 (binary64 (85 / 100) - binary64 (1 / 10))) = binary64 (75 / 100)"
  "toFixedNumber 2 (binary64 (binary64 (75 / 100) - binary64 (1 / 10))) = binary64 (65 / 100)"
  "toFixedNumber 2 (binary64 (binary64 (65 / 100) - binary64 (1 / 10))) = binary64 (55 / 100)"
  by (simp_all add: toFixedNumber_def binary64_eval)

lemma quality_order:
  "binary64 (55 / 100) < binary64 (65 / 100)"
  "binary64 (65 / 100) < binary64 (75 / 100)"
  "binary64 (75 / 100) < binary64 (85 / 100)"
  unfolding quality_values by simp_all

lemma minScale_le_initialScale: "minScaleOf ow oh \<le> initialScale ow oh"
proof (cases "max ow oh = 0")
  case True
  then show ?thesis
    by (simp add: minScaleOf_def initialScale_def MAX_ATTACHMENT_EDGE_def MIN_ATTACHMENT_EDGE_def
        binary64_def)
next
  case False
  then have "0 < max ow oh" by (rule neq0_conv[THEN iffD1])
  then have p: "(0::rat) < of_nat (max ow oh)" by (simp only: of_nat_0_less_iff)
  have le: "MIN_ATTACHMENT_EDGE / of_nat (max ow oh) \<le> MAX_ATTACHMENT_EDGE / of_nat (max ow oh)"
    using p by (simp add: divide_right_mono MAX_ATTACHMENT_EDGE_def MIN_ATTACHMENT_EDGE_def)
  have pos: "0 < MIN_ATTACHMENT_EDGE / of_nat (max ow oh)"
    using p by (simp add: MIN_ATTACHMENT_EDGE_def)
  have b: "binary64 (MIN_ATTACHMENT_EDGE / of_nat (max ow oh))
           \<le> binary64 (MAX_ATTACHMENT_EDGE / of_nat (max ow oh))"
    using pos le by (rule binary64_mono)
  have "0 < MAX_ATTACHMENT_EDGE / of_nat (max ow oh)" using pos le by simp
  then have "0 < binary64 (MAX_ATTACHMENT_EDGE / of_nat (max ow oh))" by (rule binary64_pos)
  with b show ?thesis
    by (simp add: minScaleOf_def initialScale_def Let_def min_def)
qed

lemma loopInv_initial: "loopInv (minScaleOf ow oh) (initialVars draw ow oh)"
  using minScale_le_initialScale[of ow oh]
  by (simp add: loopInv_def initialVars_def Let_def DEFAULT_JPEG_QUALITY_def)

lemma quality_cases:
  assumes "loopInv minScale v" "quality v > MIN_JPEG_QUALITY"
  obtains "quality v = binary64 (85 / 100)" | "quality v = binary64 (75 / 100)"
    | "quality v = binary64 (65 / 100)"
  using assms unfolding loopInv_def MIN_JPEG_QUALITY_def by auto

lemma quality_floor_cases:
  assumes "loopInv minScale v" "\<not> quality v > MIN_JPEG_QUALITY"
  shows "quality v = MIN_JPEG_QUALITY"
  using assms quality_order unfolding loopInv_def MIN_JPEG_QUALITY_def by auto

lemma loopBody_quality_raw:
  assumes "quality v > MIN_JPEG_QUALITY"
  shows "quality (loopBody draw ow oh minScale v)
           = max MIN_JPEG_QUALITY (toFixedNumber 2 (binary64 (quality v - binary64 (1 / 10))))"
    and "currentScale (loopBody draw ow oh minScale v) = currentScale v"
    and "width (loopBody draw ow oh minScale v) = width v"
    and "height (loopBody draw ow oh minScale v) = height v"
  using assms by (simp_all add: loopBody_def Let_def)

lemma loopBody_quality:
  assumes "loopInv minScale v" "quality v > MIN_JPEG_QUALITY"
  shows "(quality v = binary64 (85 / 100)
            \<and> quality (loopBody draw ow oh minScale v) = binary64 (75 / 100))
         \<or> (quality v = binary64 (75 / 100)
            \<and> quality (loopBody draw ow oh minScale v) = binary64 (65 / 100))
         \<or> (quality v = binary64 (65 / 100)
            \<and> quality (loopBody draw ow oh minScale v) = binary64 (55 / 100))"
proof -
  note raw = loopBody_quality_raw(1)[OF assms(2), of draw ow oh minScale]
  from assms show ?thesis
  proof (cases rule: quality_cases)
    case 1
    have "max MIN_JPEG_QUALITY (binary64 (75 / 100)) = binary64 (75 / 100)"
      using quality_order by (simp add: MIN_JPEG_QUALITY_def)
    then show ?thesis unfolding raw 1 quality_steps using 1 by simp
  next
    case 2
    have "max MIN_JPEG_QUALITY (binary64 (65 / 100)) = binary64 (65 / 100)"
      using quality_order by (simp add: MIN_JPEG_QUALITY_def)
    then show ?thesis unfolding raw 2 quality_steps using 2 by simp
  next
    case 3
    have "max MIN_JPEG_QUALITY (binary64 (55 / 100)) = binary64 (55 / 100)"
      by (simp add: MIN_JPEG_QUALITY_def)
    then show ?thesis unfolding raw 3 quality_steps using 3 by simp
  qed
qed

lemma loopBody_scale:
  assumes "loopInv minScale v" "\<not> quality v > MIN_JPEG_QUALITY" "loopCond minScale v"
  shows "quality v = MIN_JPEG_QUALITY"
    and "quality (loopBody draw ow oh minScale v) = quality v"
    and "currentScale (loopBody draw ow oh minScale v)
           = max minScale (toFixedNumber 4 (binary64 (currentScale v * DOWNSCALE_STEP)))"
    and "width (loopBody draw ow oh minScale v)
           = max (jsRound (binary64 (of_nat ow * currentScale (loopBody draw ow oh minScale v)))) 1"
    and "height (loopBody draw ow oh minScale v)
           = max (jsRound (binary64 (of_nat oh * currentScale (loopBody draw ow oh minScale v)))) 1"
proof -
  show "quality v = MIN_JPEG_QUALITY" using assms(1,2) by (rule quality_floor_cases)
  have s: "currentScale v > minScale" using assms(2,3) by (simp add: loopCond_def)
  show "quality (loopBody draw ow oh minScale v) = quality v"
    using assms(2) s by (simp add: loopBody_def Let_def)
  show "currentScale (loopBody draw ow oh minScale v)
           = max minScale (toFixedNumber 4 (binary64 (currentScale v * DOWNSCALE_STEP)))"
    using assms(2) s by (simp add: loopBody_def Let_def)
  show "width (loopBody draw ow oh minScale v)
           = max (jsRound (binary64 (of_nat ow * currentScale (loopBody draw ow oh minScale v)))) 1"
    using assms(2) s by (simp add: loopBody_def Let_def)
  show "height (loopBody draw ow oh minScale v)
           = max (jsRound (binary64 (of_nat oh * currentScale (loopBody draw ow oh minScale v)))) 1"
    using assms(2) s by (simp add: loopBody_def Let_def)
qed

lemma loopBody_render:
  "dataUrl (loopBody draw ow oh minScale v)
     = draw (width (loopBody draw ow oh minScale v)) (height (loopBody draw ow oh minScale v))
         (quality (loopBody draw ow oh minScale v))"
  "size_bytes (loopBody draw ow oh minScale v)
     = estimateBase64Size (dataUrl (loopBody draw ow oh minScale v))"
  by (simp_all add: loopBody_def Let_def)

lemma loopInv_step:
  assumes "loopInv minScale v" "loopCond minScale v"
  shows "loopInv minScale (loopBody draw ow oh minScale v)"
proof (cases "quality v > MIN_JPEG_QUALITY")
  case True
  have "minScale \<le> currentScale (loopBody draw ow oh minScale v)"
    using assms(1) loopBody_quality_raw(2)[OF True, of draw ow oh minScale]
    by (simp add: loopInv_def)
  with loopBody_quality[OF assms(1) True, of draw ow oh] show ?thesis
    unfolding loopInv_def by blast
next
  case False
  have "minScale \<le> currentScale (loopBody draw ow oh minScale v)"
    using loopBody_scale(3)[OF assms(1) False assms(2), of draw ow oh] by simp
  moreover have "quality (loopBody draw ow oh minScale v) = quality v"
    using assms(1) False assms(2) by (rule loopBody_scale(2))
  ultimately show ?thesis using assms(1) unfolding loopInv_def by simp
qed

lemma loopInv_afterIterations:
  "afterIterations draw ow oh minScale n v0 = Some v \<Longrightarrow> loopInv minScale v0 \<Longrightarrow> loopInv minScale v"
proof (induction n arbitrary: v0)
  case 0
  then show ?case by simp
next
  case (Suc n)
  show ?case
  proof (cases "loopCond minScale v0")
    case True
    with Suc.prems have "afterIterations draw ow oh minScale n (loopBody draw ow oh minScale v0) = Some v"
      by simp
    moreover have "loopInv minScale (loopBody draw ow oh minScale v0)"
      using Suc.prems(2) True by (rule loopInv_step)
    ultimately show ?thesis by (rule Suc.IH)
  next
    case False
    with Suc.prems show ?thesis by simp
  qed
qed

text \<open>
  The states \<open>afterIterations\<close> gives are the states the loop itself goes through: when
  \<open>n\<close> iterations lead from \<open>v0\<close> to \<open>v\<close>, the loop started at \<open>v0\<close> with \<open>n\<close> units of fuel
  more does what the loop started at \<open>v\<close> does.
\<close>

lemma compressLoop_afterIterations:
  "afterIterations draw ow oh minScale n v0 = Some v \<Longrightarrow>
   compressLoop draw ow oh minScale (n + fuel) v0 = compressLoop draw ow oh minScale fuel v"
proof (induction n arbitrary: v0)
  case 0
  then show ?case by simp
next
  case (Suc n)
  show ?case
  proof (cases "loopCond minScale v0")
    case True
    with Suc.prems have "afterIterations draw ow oh minScale n (loopBody draw ow oh minScale v0) = Some v"
      by simp
    then have "compressLoop draw ow oh minScale (n + fuel) (loopBody draw ow oh minScale v0)
               = compressLoop draw ow oh minScale fuel v"
      by (rule Suc.IH)
    with True show ?thesis by simp
  next
    case False
    with Suc.prems show ?thesis by simp
  qed
qed

text \<open>
  Claim C9: in every iteration the loop reaches from its entry, exactly one adjustment is
  made. While the quality is above its floor the quality alone is lowered, from 0.85 to
  0.75, from 0.75 to 0.65 or from 0.65 to 0.55, so by 0.10 and not below the floor; the
  scale, the width and the height are left as they are. Otherwise the quality is at its
  floor 0.55 and the scale becomes the larger of the floor scale and the scale times 0.85
  rounded to four decimals, the product and the rounded decimal being doubles. So the
  scale changes only when the quality is at its floor, the scale is never below the floor
  scale, and after the adjustment the image is drawn again and its size estimated again
  before the condition is tested: the loop goes on from the adjusted variables.
\<close>

theorem quality_before_scale:
  assumes "afterIterations draw ow oh (minScaleOf ow oh) n (initialVars draw ow oh) = Some v"
    and "loopCond (minScaleOf ow oh) v"
    and "v' = loopBody draw ow oh (minScaleOf ow oh) v"
  shows "(if quality v > MIN_JPEG_QUALITY
          then ((quality v = binary64 (85 / 100) \<and> quality v' = binary64 (75 / 100))
                \<or> (quality v = binary64 (75 / 100) \<and> quality v' = binary64 (65 / 100))
                \<or> (quality v = binary64 (65 / 100) \<and> quality v' = binary64 (55 / 100)))
               \<and> MIN_JPEG_QUALITY \<le> quality v' \<and> quality v' < quality v
               \<and> currentScale v' = currentScale v \<and> width v' = width v \<and> height v' = height v
          else quality v = MIN_JPEG_QUALITY \<and> quality v' = quality v
               \<and> currentScale v'
                   = max (minScaleOf ow oh) (toFixedNumber 4 (binary64 (currentScale v * DOWNSCALE_STEP)))
               \<and> width v' = max (jsRound (binary64 (of_nat ow * currentScale v'))) 1
               \<and> height v' = max (jsRound (binary64 (of_nat oh * currentScale v'))) 1)
         \<and> (currentScale v' \<noteq> currentScale v \<longrightarrow> quality v = MIN_JPEG_QUALITY)
         \<and> minScaleOf ow oh \<le> currentScale v \<and> minScaleOf ow oh \<le> currentScale v'
         \<and> dataUrl v' = draw (width v') (height v') (quality v')
         \<and> size_bytes v' = estimateBase64Size (dataUrl v')
         \<and> compressLoop draw ow oh (minScaleOf ow oh) (n + Suc fuel) (initialVars draw ow oh)
             = compressLoop draw ow oh (minScaleOf ow oh) fuel v'"
proof -
  have inv: "loopInv (minScaleOf ow oh) v"
    using assms(1) loopInv_initial by (rule loopInv_afterIterations)
  have inv': "loopInv (minScaleOf ow oh) v'"
    unfolding assms(3) using inv assms(2) by (rule loopInv_step)
  have run: "compressLoop draw ow oh (minScaleOf ow oh) (n + Suc fuel) (initialVars draw ow oh)
             = compressLoop draw ow oh (minScaleOf ow oh) fuel v'"
    unfolding assms(3) compressLoop_afterIterations[OF assms(1)] using assms(2) by simp
  show ?thesis
  proof (cases "quality v > MIN_JPEG_QUALITY")
    case True
    have q: "(quality v = binary64 (85 / 100) \<and> quality v' = binary64 (75 / 100))
                \<or> (quality v = binary64 (75 / 100) \<and> quality v' = binary64 (65 / 100))
                \<or> (quality v = binary64 (65 / 100) \<and> quality v' = binary64 (55 / 100))"
      unfolding assms(3) using inv True by (rule loopBody_quality)
    then have o: "MIN_JPEG_QUALITY \<le> quality v' \<and> quality v' < quality v"
      using quality_order unfolding MIN_JPEG_QUALITY_def by auto
    show ?thesis
      using True q o run
        loopBody_quality_raw(2,3,4)[OF True, of draw ow oh "minScaleOf ow oh"]
        loopBody_render[of draw ow oh "minScaleOf ow oh" v]
        inv inv' unfolding assms(3) by (simp add: loopInv_def)
  next
    case False
    then show ?thesis
      using run loopBody_scale(1)[OF inv False assms(2)]
        loopBody_scale(2-5)[OF inv False assms(2), of draw ow oh]
        loopBody_render[of draw ow oh "minScaleOf ow oh" v]
        inv inv' unfolding assms(3) by (simp add: loopInv_def)
  qed
qed

lemma oversize_loopCond:
  "loopCond ms \<lparr> quality = q, currentScale = s, width = w, height = h, dataUrl = u, size_bytes = 1572867 \<rparr>
     \<longleftrightarrow> q > MIN_JPEG_QUALITY \<or> s > ms"
  by (simp add: loopCond_def MAX_BASE64_ATTACHMENT_BYTES_def)

lemma oversize_quality_step:
  assumes "q > MIN_JPEG_QUALITY"
  shows "loopBody oversizeDraw ow oh ms \<lparr> quality = q, currentScale = s, width = w, height = h, dataUrl = u, size_bytes = z \<rparr>
     = \<lparr> quality = max MIN_JPEG_QUALITY (toFixedNumber 2 (binary64 (q - binary64 (1 / 10)))),
         currentScale = s, width = w, height = h,
         dataUrl = oversizeDraw w h (max MIN_JPEG_QUALITY (toFixedNumber 2 (binary64 (q - binary64 (1 / 10))))),
         size_bytes = 1572867 \<rparr>"
  using assms by (simp add: loopBody_def oversizeDraw_size Let_def)

lemma oversize_scale_step:
  assumes "\<not> q > MIN_JPEG_QUALITY" "s > ms"
    and "s' = max ms (toFixedNumber 4 (binary64 (s * DOWNSCALE_STEP)))"
    and "w' = max (jsRound (binary64 (of_nat ow * s'))) 1"
    and "h' = max (jsRound (binary64 (of_nat oh * s'))) 1"
  shows "loopBody oversizeDraw ow oh ms \<lparr> quality = q, currentScale = s, width = w, height = h, dataUrl = u, size_bytes = z \<rparr>
     = \<lparr> quality = q, currentScale = s', width = w', height = h',
         dataUrl = oversizeDraw w' h' q, size_bytes = 1572867 \<rparr>"
  using assms(1,2) unfolding assms(3,4,5) by (simp add: loopBody_def oversizeDraw_size Let_def)

lemma oversize_quality_steps:
  assumes "ms \<le> s"
  shows "afterIterations oversizeDraw ow oh ms 3
       \<lparr> quality = binary64 (85 / 100), currentScale = s, width = w, height = h,
         dataUrl = oversizeDraw w h (binary64 (85 / 100)), size_bytes = 1572867 \<rparr>
     = Some \<lparr> quality = binary64 (55 / 100), currentScale = s, width = w, height = h,
              dataUrl = oversizeDraw w h (binary64 (55 / 100)), size_bytes = 1572867 \<rparr>"
proof -
  let ?v = "\<lambda>q. \<lparr> quality = q, currentScale = s, width = w, height = h,
                   dataUrl = oversizeDraw w h q, size_bytes = 1572867 \<rparr>"
  have m: "max MIN_JPEG_QUALITY (binary64 (75 / 100)) = binary64 (75 / 100)"
    "max MIN_JPEG_QUALITY (binary64 (65 / 100)) = binary64 (65 / 100)"
    "max MIN_JPEG_QUALITY (binary64 (55 / 100)) = binary64 (55 / 100)"
    unfolding MIN_JPEG_QUALITY_def quality_values by simp_all
  have g: "binary64 (85 / 100) > MIN_JPEG_QUALITY" "binary64 (75 / 100) > MIN_JPEG_QUALITY"
    "binary64 (65 / 100) > MIN_JPEG_QUALITY"
    unfolding MIN_JPEG_QUALITY_def quality_values by simp_all
  have b1: "loopBody oversizeDraw ow oh ms (?v (binary64 (85 / 100))) = ?v (binary64 (75 / 100))"
    unfolding oversize_quality_step[OF g(1)] quality_steps m ..
  have b2: "loopBody oversizeDraw ow oh ms (?v (binary64 (75 / 100))) = ?v (binary64 (65 / 100))"
    unfolding oversize_quality_step[OF g(2)] quality_steps m ..
  have b3: "loopBody oversizeDraw ow oh ms (?v (binary64 (65 / 100))) = ?v (binary64 (55 / 100))"
    unfolding oversize_quality_step[OF g(3)] quality_steps m ..
  have c: "loopCond ms (?v (binary64 (85 / 100)))" "loopCond ms (?v (binary64 (75 / 100)))"
    "loopCond ms (?v (binary64 (65 / 100)))"
    unfolding oversize_loopCond using g by simp_all
  have "afterIterations oversizeDraw ow oh ms (Suc (Suc (Suc 0))) (?v (binary64 (85 / 100)))
        = Some (?v (binary64 (55 / 100)))"
    unfolding afterIterations.simps b1 b2 b3 using c by (simp only: if_True)
  then show ?thesis by (simp only: numeral_3_eq_3)
qed

lemma scale_values_4000:
  "binary64 (2 / 5) = 3602879701896397 / 9007199254740992"
  "binary64 (34 / 100) = 6124895493223875 / 18014398509481984"
  by (simp_all add: binary64_eval)

lemma scales_4000:
  "initialScale 4000 4000 = 3602879701896397 / 9007199254740992"
  "minScaleOf 4000 4000 = 1152921504606847 / 9007199254740992"
  by (simp_all add: initialScale_def minScaleOf_def MAX_ATTACHMENT_EDGE_def MIN_ATTACHMENT_EDGE_def
      binary64_eval)

lemma initialVars_4000:
  "initialVars oversizeDraw 4000 4000
     = \<lparr> quality = binary64 (85 / 100), currentScale = 3602879701896397 / 9007199254740992,
         width = 1600, height = 1600,
         dataUrl = oversizeDraw 1600 1600 (binary64 (85 / 100)), size_bytes = 1572867 \<rparr>"
proof -
  have "jsRound (binary64 (4000 * (3602879701896397 / 9007199254740992))) = 1600"
    by (simp add: jsRound_def binary64_eval)
  then show ?thesis
    by (simp add: initialVars_def scales_4000 DEFAULT_JPEG_QUALITY_def oversizeDraw_size Let_def)
qed

lemma step4_4000:
  "loopBody oversizeDraw 4000 4000 (1152921504606847 / 9007199254740992)
     \<lparr> quality = binary64 (55 / 100), currentScale = 3602879701896397 / 9007199254740992,
       width = 1600, height = 1600,
       dataUrl = oversizeDraw 1600 1600 (binary64 (55 / 100)), size_bytes = 1572867 \<rparr>
   = \<lparr> quality = binary64 (55 / 100), currentScale = 6124895493223875 / 18014398509481984,
       width = 1360, height = 1360,
       dataUrl = oversizeDraw 1360 1360 (binary64 (55 / 100)), size_bytes = 1572867 \<rparr>"
proof (rule oversize_scale_step)
  show "\<not> binary64 (55 / 100) > MIN_JPEG_QUALITY" by (simp add: MIN_JPEG_QUALITY_def)
  show "(3602879701896397 / 9007199254740992 :: rat) > 1152921504606847 / 9007199254740992" by simp
  show "(6124895493223875 / 18014398509481984 :: rat)
        = max (1152921504606847 / 9007199254740992)
            (toFixedNumber 4 (binary64 (3602879701896397 / 9007199254740992 * DOWNSCALE_STEP)))"
    by (simp add: toFixedNumber_def DOWNSCALE_STEP_def binary64_eval)
  show "(1360 :: int) = max (jsRound (binary64 (of_nat 4000 * (6124895493223875 / 18014398509481984)))) 1"
    by (simp add: jsRound_def binary64_eval)
  then show "(1360 :: int) = max (jsRound (binary64 (of_nat 4000 * (6124895493223875 / 18014398509481984)))) 1" .
qed

text \<open>
  Claim C9 at an image of 4000 by 4000 pixels whose JPEG never fits: after three
  iterations the quality is at its floor, the fourth lowers the scale from 0.4 to 0.34
  and the width from 1600 to 1360, and the loop goes on from there.
\<close>

theorem quality_before_scale_witness:
  "afterIterations oversizeDraw 4000 4000 (minScaleOf 4000 4000) 3 (initialVars oversizeDraw 4000 4000)
     = Some \<lparr> quality = binary64 (55 / 100), currentScale = binary64 (2 / 5), width = 1600, height = 1600,
              dataUrl = oversizeDraw 1600 1600 (binary64 (55 / 100)), size_bytes = 1572867 \<rparr>
   \<and> loopCond (minScaleOf 4000 4000)
        \<lparr> quality = binary64 (55 / 100), currentScale = binary64 (2 / 5), width = 1600, height = 1600,
          dataUrl = oversizeDraw 1600 1600 (binary64 (55 / 100)), size_bytes = 1572867 \<rparr>
   \<and> quality (loopBody oversizeDraw 4000 4000 (minScaleOf 4000 4000)
        \<lparr> quality = binary64 (55 / 100), currentScale = binary64 (2 / 5), width = 1600, height = 1600,
          dataUrl = oversizeDraw 1600 1600 (binary64 (55 / 100)), size_bytes = 1572867 \<rparr>)
       = binary64 (55 / 100)
   \<and> currentScale (loopBody oversizeDraw 4000 4000 (minScaleOf 4000 4000)
        \<lparr> quality = binary64 (55 / 100), currentScale = binary64 (2 / 5), width = 1600, height = 1600,
          dataUrl = oversizeDraw 1600 1600 (binary64 (55 / 100)), size_bytes = 1572867 \<rparr>)
       = binary64 (34 / 100)
   \<and> width (loopBody oversizeDraw 4000 4000 (minScaleOf 4000 4000)
        \<lparr> quality = binary64 (55 / 100), currentScale = binary64 (2 / 5), width = 1600, height = 1600,
          dataUrl = oversizeDraw 1600 1600 (binary64 (55 / 100)), size_bytes = 1572867 \<rparr>) = 1360
   \<and> compressLoop oversizeDraw 4000 4000 (minScaleOf 4000 4000) 4 (initialVars oversizeDraw 4000 4000)
       = compressLoop oversizeDraw 4000 4000 (minScaleOf 4000 4000) 0
           \<lparr> quality = binary64 (55 / 100), currentScale = binary64 (34 / 100), width = 1360, height = 1360,
             dataUrl = oversizeDraw 1360 1360 (binary64 (55 / 100)), size_bytes = 1572867 \<rparr>"
proof -
  let ?v = "\<lparr> quality = binary64 (55 / 100), currentScale = 3602879701896397 / 9007199254740992,
              width = 1600, height = 1600,
              dataUrl = oversizeDraw 1600 1600 (binary64 (55 / 100)), size_bytes = 1572867 \<rparr>"
  have h1: "afterIterations oversizeDraw 4000 4000 (minScaleOf 4000 4000) 3
              (initialVars oversizeDraw 4000 4000) = Some ?v"
    unfolding scales_4000 initialVars_4000 by (rule oversize_quality_steps) simp
  have h2: "loopCond (minScaleOf 4000 4000) ?v"
    unfolding scales_4000 oversize_loopCond by simp
  have b: "loopBody oversizeDraw 4000 4000 (minScaleOf 4000 4000) ?v
           = \<lparr> quality = binary64 (55 / 100), currentScale = 6124895493223875 / 18014398509481984,
               width = 1360, height = 1360,
               dataUrl = oversizeDraw 1360 1360 (binary64 (55 / 100)), size_bytes = 1572867 \<rparr>"
    unfolding scales_4000 by (rule step4_4000)
  show ?thesis
    unfolding scale_values_4000
    using quality_before_scale[OF h1 h2 refl, where fuel = 0] h1 h2 unfolding b by simp
qed

lemma afterIterations_Suc:
  "afterIterations draw ow oh ms n v0 = Some v \<Longrightarrow> loopCond ms v \<Longrightarrow>
   afterIterations draw ow oh ms (Suc n) v0 = Some (loopBody draw ow oh ms v)"
proof (induction n arbitrary: v0)
  case 0
  then show ?case by simp
next
  case (Suc n)
  show ?case
  proof (cases "loopCond ms v0")
    case True
    with Suc.prems(1) have "afterIterations draw ow oh ms n (loopBody draw ow oh ms v0) = Some v"
      by simp
    then have "afterIterations draw ow oh ms (Suc n) (loopBody draw ow oh ms v0)
               = Some (loopBody draw ow oh ms v)"
      using Suc.prems(2) by (rule Suc.IH)
    with True show ?thesis by simp
  next
    case False
    with Suc.prems(1) show ?thesis by simp
  qed
qed

text \<open>
  Where the product of two doubles is not the product of the decimals they stand for:
  \<open>0.289 * 0.85\<close> is \<open>0.24564999999999998\<close> as a double, which \<open>toFixed(4)\<close> writes as
  \<open>0.2456\<close>, and \<open>145 * (1600 / 3712)\<close> is \<open>62.49999999999999\<close>, which \<open>Math.round\<close>
  takes to 62.
\<close>

lemma downscale_from_289:
  "toFixedNumber 4 (binary64 (binary64 (289 / 1000) * DOWNSCALE_STEP)) = binary64 (2456 / 10000)"
  by (simp add: toFixedNumber_def DOWNSCALE_STEP_def binary64_eval)

lemma initial_size_3712_145:
  "width (initialVars draw 3712 145) = 1600" "height (initialVars draw 3712 145) = 62"
proof -
  have s: "initialScale 3712 145 = 3882413471871117 / 9007199254740992"
    by (simp add: initialScale_def MAX_ATTACHMENT_EDGE_def binary64_eval)
  have "jsRound (binary64 (3712 * (3882413471871117 / 9007199254740992))) = 1600"
    by (simp add: jsRound_def binary64_eval)
  then show "width (initialVars draw 3712 145) = 1600"
    by (simp add: initialVars_def s Let_def)
  have "jsRound (binary64 (145 * (3882413471871117 / 9007199254740992))) = 62"
    by (simp add: jsRound_def binary64_eval)
  then show "height (initialVars draw 3712 145) = 62"
    by (simp add: initialVars_def s Let_def)
qed

lemma scale_values_4000_further:
  "binary64 (289 / 1000) = 5206161169240293 / 18014398509481984"
  "binary64 (2456 / 10000) = 8848672547857551 / 36028797018963968"
  "toFixedNumber 4 (binary64 (6124895493223875 / 18014398509481984 * DOWNSCALE_STEP))
     = 5206161169240293 / 18014398509481984"
  "toFixedNumber 4 (binary64 (5206161169240293 / 18014398509481984 * DOWNSCALE_STEP))
     = 8848672547857551 / 36028797018963968"
  "jsRound (binary64 (4000 * (5206161169240293 / 18014398509481984))) = 1156"
  "jsRound (binary64 (4000 * (8848672547857551 / 36028797018963968))) = 982"
  by (simp_all add: toFixedNumber_def jsRound_def DOWNSCALE_STEP_def binary64_eval)

lemma step5_4000:
  "loopBody oversizeDraw 4000 4000 (1152921504606847 / 9007199254740992)
     \<lparr> quality = binary64 (55 / 100), currentScale = 6124895493223875 / 18014398509481984,
       width = 1360, height = 1360,
       dataUrl = oversizeDraw 1360 1360 (binary64 (55 / 100)), size_bytes = 1572867 \<rparr>
   = \<lparr> quality = binary64 (55 / 100), currentScale = 5206161169240293 / 18014398509481984,
       width = 1156, height = 1156,
       dataUrl = oversizeDraw 1156 1156 (binary64 (55 / 100)), size_bytes = 1572867 \<rparr>"
proof (rule oversize_scale_step)
  show "\<not> binary64 (55 / 100) > MIN_JPEG_QUALITY" by (simp add: MIN_JPEG_QUALITY_def)
  show "(6124895493223875 / 18014398509481984 :: rat) > 1152921504606847 / 9007199254740992" by simp
  show "(5206161169240293 / 18014398509481984 :: rat)
        = max (1152921504606847 / 9007199254740992)
            (toFixedNumber 4 (binary64 (6124895493223875 / 18014398509481984 * DOWNSCALE_STEP)))"
    unfolding scale_values_4000_further by simp
  show "(1156 :: int) = max (jsRound (binary64 (of_nat 4000 * (5206161169240293 / 18014398509481984)))) 1"
    using scale_values_4000_further(5) by simp
  then show "(1156 :: int) = max (jsRound (binary64 (of_nat 4000 * (5206161169240293 / 18014398509481984)))) 1" .
qed

lemma step6_4000:
  "loopBody oversizeDraw 4000 4000 (1152921504606847 / 9007199254740992)
     \<lparr> quality = binary64 (55 / 100), currentScale = 5206161169240293 / 18014398509481984,
       width = 1156, height = 1156,
       dataUrl = oversizeDraw 1156 1156 (binary64 (55 / 100)), size_bytes = 1572867 \<rparr>
   = \<lparr> quality = binary64 (55 / 100), currentScale = 8848672547857551 / 36028797018963968,
       width = 982, height = 982,
       dataUrl = oversizeDraw 982 982 (binary64 (55 / 100)), size_bytes = 1572867 \<rparr>"
proof (rule oversize_scale_step)
  show "\<not> binary64 (55 / 100) > MIN_JPEG_QUALITY" by (simp add: MIN_JPEG_QUALITY_def)
  show "(5206161169240293 / 18014398509481984 :: rat) > 1152921504606847 / 9007199254740992" by simp
  show "(8848672547857551 / 36028797018963968 :: rat)
        = max (1152921504606847 / 9007199254740992)
            (toFixedNumber 4 (binary64 (5206161169240293 / 18014398509481984 * DOWNSCALE_STEP)))"
    unfolding scale_values_4000_further by simp
  show "(982 :: int) = max (jsRound (binary64 (of_nat 4000 * (8848672547857551 / 36028797018963968)))) 1"
    using scale_values_4000_further(6) by simp
  then show "(982 :: int) = max (jsRound (binary64 (of_nat 4000 * (8848672547857551 / 36028797018963968)))) 1" .
qed

text \<open>
  The first six iterations at 4000 by 4000 pixels on a canvas whose JPEG never fits: the
  quality goes down to 0.55 and the scale then goes 0.4, 0.34, 0.289, 0.2456, the width
  1600, 1360, 1156, 982.
\<close>

lemma after6_4000:
  "afterIterations oversizeDraw 4000 4000 (minScaleOf 4000 4000) 6 (initialVars oversizeDraw 4000 4000)
     = Some \<lparr> quality = binary64 (55 / 100), currentScale = binary64 (2456 / 10000),
              width = 982, height = 982,
              dataUrl = oversizeDraw 982 982 (binary64 (55 / 100)), size_bytes = 1572867 \<rparr>"
proof -
  let ?ms = "1152921504606847 / 9007199254740992 :: rat"
  let ?v = "\<lambda>s w. \<lparr> quality = binary64 (55 / 100), currentScale = s, width = w, height = w,
                   dataUrl = oversizeDraw w w (binary64 (55 / 100)), size_bytes = 1572867 \<rparr>"
  have a3: "afterIterations oversizeDraw 4000 4000 ?ms 3 (initialVars oversizeDraw 4000 4000)
            = Some (?v (3602879701896397 / 9007199254740992) 1600)"
    unfolding initialVars_4000 by (rule oversize_quality_steps) simp
  have a4: "afterIterations oversizeDraw 4000 4000 ?ms (Suc 3) (initialVars oversizeDraw 4000 4000)
            = Some (?v (6124895493223875 / 18014398509481984) 1360)"
    using afterIterations_Suc[OF a3] unfolding step4_4000 by (simp add: oversize_loopCond)
  have a5: "afterIterations oversizeDraw 4000 4000 ?ms (Suc (Suc 3)) (initialVars oversizeDraw 4000 4000)
            = Some (?v (5206161169240293 / 18014398509481984) 1156)"
    using afterIterations_Suc[OF a4] unfolding step5_4000 by (simp add: oversize_loopCond)
  have a6: "afterIterations oversizeDraw 4000 4000 ?ms (Suc (Suc (Suc 3))) (initialVars oversizeDraw 4000 4000)
            = Some (?v (8848672547857551 / 36028797018963968) 982)"
    using afterIterations_Suc[OF a5] unfolding step6_4000 by (simp add: oversize_loopCond)
  have n: "Suc (Suc (Suc 3)) = 6" by simp
  show ?thesis
    unfolding scales_4000 scale_values_4000_further using a6 unfolding n .
qed

lemma compressLoop_diverges_step:
  assumes "loopCond ms v"
    and "\<And>fuel. compressLoop draw ow oh ms fuel (loopBody draw ow oh ms v) = None"
  shows "compressLoop draw ow oh ms fuel v = None"
  using assms by (cases fuel) simp_all

lemma compressLoop_fixpoint:
  assumes "loopCond ms v" and "loopBody draw ow oh ms v = v"
  shows "compressLoop draw ow oh ms fuel v = None"
  using assms by (induction fuel) simp_all

lemma compressLoop_diverges_afterIterations:
  "afterIterations draw ow oh ms n v0 = Some v \<Longrightarrow>
   (\<And>fuel. compressLoop draw ow oh ms fuel v = None) \<Longrightarrow>
   compressLoop draw ow oh ms fuel v0 = None"
proof (induction n arbitrary: v0 fuel)
  case 0
  then show ?case by simp
next
  case (Suc n)
  show ?case
  proof (cases "loopCond ms v0")
    case True
    with Suc.prems(1) have a: "afterIterations draw ow oh ms n (loopBody draw ow oh ms v0) = Some v"
      by simp
    show ?thesis
    proof (rule compressLoop_diverges_step[OF True])
      fix k
      show "compressLoop draw ow oh ms k (loopBody draw ow oh ms v0) = None"
        using a Suc.prems(2) by (rule Suc.IH)
    qed
  next
    case False
    with Suc.prems(1) show ?thesis by simp
  qed
qed

lemma scales_5000000:
  "initialScale 5000000 5000000 = 5902958103587057 / 18446744073709551616"
  "minScaleOf 5000000 5000000 = 944473296573929 / 9223372036854775808"
  by (simp_all add: initialScale_def minScaleOf_def MAX_ATTACHMENT_EDGE_def MIN_ATTACHMENT_EDGE_def
      binary64_eval)

lemma initialVars_5000000:
  "initialVars oversizeDraw 5000000 5000000
     = \<lparr> quality = binary64 (85 / 100), currentScale = 5902958103587057 / 18446744073709551616,
         width = 1600, height = 1600,
         dataUrl = oversizeDraw 1600 1600 (binary64 (85 / 100)), size_bytes = 1572867 \<rparr>"
proof -
  have "jsRound (binary64 (5000000 * (5902958103587057 / 18446744073709551616))) = 1600"
    by (simp add: jsRound_def binary64_eval)
  then show ?thesis
    by (simp add: initialVars_def scales_5000000 DEFAULT_JPEG_QUALITY_def oversizeDraw_size Let_def)
qed

text \<open>
  At 5000000 pixels the first downscale step takes the scale from the double of
  \<open>0.00032\<close> to the double of \<open>0.0003\<close> and the width to 1500; the next one computes
  \<open>0.0003 * 0.85\<close>, about \<open>0.000255\<close>, which \<open>toFixed(4)\<close> writes as \<open>0.0003\<close> again.
\<close>

lemma scale_values_5000000:
  "binary64 (3 / 10000) = 5534023222112865 / 18446744073709551616"
  "toFixedNumber 4 (binary64 (5902958103587057 / 18446744073709551616 * DOWNSCALE_STEP))
     = 5534023222112865 / 18446744073709551616"
  "toFixedNumber 4 (binary64 (5534023222112865 / 18446744073709551616 * DOWNSCALE_STEP))
     = 5534023222112865 / 18446744073709551616"
  "jsRound (binary64 (5000000 * (5534023222112865 / 18446744073709551616))) = 1500"
  by (simp_all add: toFixedNumber_def jsRound_def DOWNSCALE_STEP_def binary64_eval)

lemma first_downscale_5000000:
  "loopBody oversizeDraw 5000000 5000000 (944473296573929 / 9223372036854775808)
     \<lparr> quality = binary64 (55 / 100), currentScale = 5902958103587057 / 18446744073709551616,
       width = 1600, height = 1600,
       dataUrl = oversizeDraw 1600 1600 (binary64 (55 / 100)), size_bytes = 1572867 \<rparr>
   = \<lparr> quality = binary64 (55 / 100), currentScale = 5534023222112865 / 18446744073709551616,
       width = 1500, height = 1500,
       dataUrl = oversizeDraw 1500 1500 (binary64 (55 / 100)), size_bytes = 1572867 \<rparr>"
proof (rule oversize_scale_step)
  show "\<not> binary64 (55 / 100) > MIN_JPEG_QUALITY" by (simp add: MIN_JPEG_QUALITY_def)
  show "(5902958103587057 / 18446744073709551616 :: rat) > 944473296573929 / 9223372036854775808"
    by simp
  show "(5534023222112865 / 18446744073709551616 :: rat)
        = max (944473296573929 / 9223372036854775808)
            (toFixedNumber 4 (binary64 (5902958103587057 / 18446744073709551616 * DOWNSCALE_STEP)))"
    unfolding scale_values_5000000 by simp
  show "(1500 :: int) = max (jsRound (binary64 (of_nat 5000000 * (5534023222112865 / 18446744073709551616)))) 1"
    using scale_values_5000000(4) by simp
  then show "(1500 :: int) = max (jsRound (binary64 (of_nat 5000000 * (5534023222112865 / 18446744073709551616)))) 1" .
qed

lemma stuck_5000000:
  "loopBody oversizeDraw 5000000 5000000 (944473296573929 / 9223372036854775808)
     \<lparr> quality = binary64 (55 / 100), currentScale = 5534023222112865 / 18446744073709551616,
       width = 1500, height = 1500,
       dataUrl = oversizeDraw 1500 1500 (binary64 (55 / 100)), size_bytes = 1572867 \<rparr>
   = \<lparr> quality = binary64 (55 / 100), currentScale = 5534023222112865 / 18446744073709551616,
       width = 1500, height = 1500,
       dataUrl = oversizeDraw 1500 1500 (binary64 (55 / 100)), size_bytes = 1572867 \<rparr>"
proof (rule oversize_scale_step)
  show "\<not> binary64 (55 / 100) > MIN_JPEG_QUALITY" by (simp add: MIN_JPEG_QUALITY_def)
  show "(5534023222112865 / 18446744073709551616 :: rat) > 944473296573929 / 9223372036854775808"
    by simp
  show "(5534023222112865 / 18446744073709551616 :: rat)
        = max (944473296573929 / 9223372036854775808)
            (toFixedNumber 4 (binary64 (5534023222112865 / 18446744073709551616 * DOWNSCALE_STEP)))"
    unfolding scale_values_5000000 by simp
  show "(1500 :: int) = max (jsRound (binary64 (of_nat 5000000 * (5534023222112865 / 18446744073709551616)))) 1"
    using scale_values_5000000(4) by simp
  then show "(1500 :: int) = max (jsRound (binary64 (of_nat 5000000 * (5534023222112865 / 18446744073709551616)))) 1" .
qed

lemma loop_5000000_never_leaves:
  "compressLoop oversizeDraw 5000000 5000000 (minScaleOf 5000000 5000000) fuel
     (initialVars oversizeDraw 5000000 5000000) = None"
proof -
  let ?ms = "944473296573929 / 9223372036854775808 :: rat"
  let ?loop = "compressLoop oversizeDraw 5000000 5000000 ?ms"
  let ?v = "\<lambda>q s w. \<lparr> quality = q, currentScale = s, width = w, height = w,
                     dataUrl = oversizeDraw w w q, size_bytes = 1572867 \<rparr>"
  let ?stuck = "?v (binary64 (55 / 100)) (5534023222112865 / 18446744073709551616) 1500"
  let ?floor = "?v (binary64 (55 / 100)) (5902958103587057 / 18446744073709551616) 1600"
  have s4: "?loop fuel ?stuck = None" for fuel
    by (rule compressLoop_fixpoint[OF _ stuck_5000000]) (simp add: oversize_loopCond)
  have s3: "?loop fuel ?floor = None" for fuel
  proof (rule compressLoop_diverges_step)
    show "loopCond ?ms ?floor" by (simp add: oversize_loopCond)
    show "?loop k (loopBody oversizeDraw 5000000 5000000 ?ms ?floor) = None" for k
      unfolding first_downscale_5000000 by (rule s4)
  qed
  have a: "afterIterations oversizeDraw 5000000 5000000 ?ms 3
             (?v (binary64 (85 / 100)) (5902958103587057 / 18446744073709551616) 1600) = Some ?floor"
    by (rule oversize_quality_steps) simp
  show ?thesis
    unfolding scales_5000000 initialVars_5000000 using a s3 by (rule compressLoop_diverges_afterIterations)
qed

text \<open>
  Claim C2 fails on the code. For an image of 5000000 by 5000000 pixels whose JPEG never
  fits, the loop lowers the quality to 0.55 and the scale from 0.00032 to 0.0003; from
  then on 0.0003 times 0.85 rounds to 0.0003 again, which is above the floor scale
  0.0001024, so the variables no longer change and the loop is never left: no amount of
  fuel lets the call return or throw.
\<close>

theorem compress_huge_image_never_returns:
  "compressImageFile hugeImageBrowser fuel f = None"
  using loop_5000000_never_leaves[of fuel]
  by (simp add: compressImageFile_def hugeImageBrowser_def Let_def)

text \<open>
  The loop is left for images of ordinary sizes. A double is within one part in
  \<open>2 ^ 53\<close> of the number it rounds, so from the scale 0.000341 upwards the scale times
  0.85, written with four decimals, is below the scale, and the ten-thousandths counted
  for it are fewer.
\<close>

lemma binary64_upper: "0 < x \<Longrightarrow> binary64 x \<le> x + x / 2 ^ 53"
  using binary64_near[of x] by linarith

lemma binary64_lower: "0 < x \<Longrightarrow> x - x / 2 ^ 53 \<le> binary64 x"
  using binary64_near[of x] by linarith

lemma downscale_bounds:
  assumes "341 / 1000000 \<le> s" "s \<le> 1"
  defines "k \<equiv> \<lfloor>binary64 (s * DOWNSCALE_STEP) * 10 ^ 4 + 1 / 2\<rfloor>"
  shows "0 \<le> k" "of_int k < s * 10000 - 1 / 100" "k < 10000"
    "toFixedNumber 4 (binary64 (s * DOWNSCALE_STEP)) * 10000 \<le> of_int k + 1 / 100"
proof -
  let ?x = "binary64 (s * DOWNSCALE_STEP)"
  have spos: "0 < s" using assms(1) by simp
  have d: "DOWNSCALE_STEP = 7656119366529843 / 9007199254740992"
    unfolding DOWNSCALE_STEP_def quality_values ..
  have ppos: "0 < s * DOWNSCALE_STEP" using spos unfolding d by simp
  have xpos: "0 < ?x" using ppos by (rule binary64_pos)
  have xup: "?x \<le> s * DOWNSCALE_STEP + s * DOWNSCALE_STEP / 2 ^ 53"
    using ppos by (rule binary64_upper)
  have "0 \<le> ?x * 10 ^ 4 + 1 / 2" using xpos by simp
  then show k0: "0 \<le> k" unfolding k_def by simp
  have kle: "of_int k \<le> ?x * 10 ^ 4 + 1 / 2" unfolding k_def by (rule of_int_floor_le)
  show klt: "of_int k < s * 10000 - 1 / 100"
    using kle xup assms(1) unfolding d by simp
  have "(of_int k :: rat) < 10000" using klt assms(2) by simp
  then show k1: "k < 10000" by simp
  show "toFixedNumber 4 ?x * 10000 \<le> of_int k + 1 / 100"
  proof (cases "k = 0")
    case True
    then show ?thesis unfolding toFixedNumber_def k_def[symmetric] by (simp add: binary64_def)
  next
    case False
    with k0 have "0 < k" by simp
    then have "(0::rat) < of_int k / 10 ^ 4" by simp
    then have "binary64 (of_int k / 10 ^ 4) \<le> of_int k / 10 ^ 4 + of_int k / 10 ^ 4 / 2 ^ 53"
      by (rule binary64_upper)
    moreover have "(of_int k :: rat) < 10000" using k1 by simp
    ultimately show ?thesis unfolding toFixedNumber_def k_def[symmetric] by simp
  qed
qed

lemma scaleSteps_decreases:
  assumes "341 / 1000000 \<le> ms" "ms < s" "s \<le> 1"
  defines "s' \<equiv> max ms (toFixedNumber 4 (binary64 (s * DOWNSCALE_STEP)))"
  shows "scaleSteps ms s' < scaleSteps ms s" "s' \<le> 1"
proof -
  let ?t = "toFixedNumber 4 (binary64 (s * DOWNSCALE_STEP))"
  let ?k = "\<lfloor>binary64 (s * DOWNSCALE_STEP) * 10 ^ 4 + 1 / 2\<rfloor>"
  have sl: "341 / 1000000 \<le> s" using assms(1,2) by simp
  note b = downscale_bounds[OF sl assms(3)]
  have old: "?k < \<lceil>s * 10000 - 1 / 100\<rceil>" using b(2) by (simp only: less_ceiling_iff)
  have oldpos: "0 < \<lceil>s * 10000 - 1 / 100\<rceil>" using b(1) old by linarith
  have tlt: "?t < s" using b(2,4) by simp
  show "s' \<le> 1" unfolding s'_def using tlt assms(2,3) by simp
  show "scaleSteps ms s' < scaleSteps ms s"
  proof (cases "?t \<le> ms")
    case True
    then have "s' = ms" unfolding s'_def by simp
    then show ?thesis using assms(2) oldpos by (simp add: scaleSteps_def)
  next
    case False
    then have m: "s' = ?t" unfolding s'_def by simp
    have "?t * 10000 - 1 / 100 \<le> of_int ?k" using b(4) by simp
    then have "\<lceil>?t * 10000 - 1 / 100\<rceil> \<le> ?k" by (simp only: ceiling_le_iff)
    then have "\<lceil>?t * 10000 - 1 / 100\<rceil> < \<lceil>s * 10000 - 1 / 100\<rceil>" using old by simp
    then have "nat \<lceil>?t * 10000 - 1 / 100\<rceil> < nat \<lceil>s * 10000 - 1 / 100\<rceil>"
      using oldpos by simp
    then show ?thesis using False assms(2) unfolding m by (simp add: scaleSteps_def)
  qed
qed

lemma qualitySteps_values:
  "qualitySteps (binary64 (85 / 100)) = 3" "qualitySteps (binary64 (75 / 100)) = 2"
  "qualitySteps (binary64 (65 / 100)) = 1" "qualitySteps (binary64 (55 / 100)) = 0"
  unfolding quality_values qualitySteps_def by simp_all

lemma loopSteps_decreases:
  assumes "loopInv ms v" "loopCond ms v" "341 / 1000000 \<le> ms" "currentScale v \<le> 1"
  shows "loopSteps ms (loopBody draw ow oh ms v) < loopSteps ms v"
    and "currentScale (loopBody draw ow oh ms v) \<le> 1"
proof -
  have "loopSteps ms (loopBody draw ow oh ms v) < loopSteps ms v
        \<and> currentScale (loopBody draw ow oh ms v) \<le> 1"
  proof (cases "quality v > MIN_JPEG_QUALITY")
    case True
    have s: "currentScale (loopBody draw ow oh ms v) = currentScale v"
      using True by (rule loopBody_quality_raw(2))
    have "qualitySteps (quality (loopBody draw ow oh ms v)) < qualitySteps (quality v)"
      using loopBody_quality[OF assms(1) True, of draw ow oh] qualitySteps_values by auto
    then show ?thesis unfolding loopSteps_def s using assms(4) by simp
  next
    case False
    have q: "quality (loopBody draw ow oh ms v) = quality v"
      using assms(1) False assms(2) by (rule loopBody_scale(2))
    have s: "currentScale (loopBody draw ow oh ms v)
               = max ms (toFixedNumber 4 (binary64 (currentScale v * DOWNSCALE_STEP)))"
      using assms(1) False assms(2) by (rule loopBody_scale(3))
    have "ms < currentScale v" using False assms(2) by (simp add: loopCond_def)
    from scaleSteps_decreases[OF assms(3) this assms(4)]
    show ?thesis unfolding loopSteps_def s q by simp
  qed
  then show "loopSteps ms (loopBody draw ow oh ms v) < loopSteps ms v"
    and "currentScale (loopBody draw ow oh ms v) \<le> 1" by simp_all
qed

lemma compressLoop_leaves:
  assumes "341 / 1000000 \<le> ms"
  shows "loopInv ms v \<Longrightarrow> currentScale v \<le> 1 \<Longrightarrow> loopSteps ms v \<le> fuel \<Longrightarrow>
         \<exists>w. compressLoop draw ow oh ms fuel v = Some w \<and> \<not> loopCond ms w"
proof (induction fuel arbitrary: v)
  case 0
  show ?case
  proof (cases "loopCond ms v")
    case True
    have "loopSteps ms (loopBody draw ow oh ms v) < loopSteps ms v"
      using "0.prems"(1) True assms "0.prems"(2) by (rule loopSteps_decreases(1))
    with "0.prems"(3) show ?thesis by simp
  next
    case False
    then show ?thesis by simp
  qed
next
  case (Suc fuel)
  show ?case
  proof (cases "loopCond ms v")
    case True
    have "loopSteps ms (loopBody draw ow oh ms v) < loopSteps ms v"
      using Suc.prems(1) True assms Suc.prems(2) by (rule loopSteps_decreases(1))
    with Suc.prems(3) have le: "loopSteps ms (loopBody draw ow oh ms v) \<le> fuel" by simp
    have one: "currentScale (loopBody draw ow oh ms v) \<le> 1"
      using Suc.prems(1) True assms Suc.prems(2) by (rule loopSteps_decreases(2))
    have "loopInv ms (loopBody draw ow oh ms v)"
      using Suc.prems(1) True by (rule loopInv_step)
    from Suc.IH[OF this one le] True show ?thesis by simp
  next
    case False
    then show ?thesis by simp
  qed
qed

lemma initialScale_le_1: "initialScale ow oh \<le> 1"
  by (simp add: initialScale_def Let_def)

lemma loopSteps_initial: "loopSteps (minScaleOf ow oh) (initialVars draw ow oh) \<le> 10003"
proof -
  have "initialScale ow oh * 10000 - 1 / 100 \<le> 10000" using initialScale_le_1[of ow oh] by simp
  then have c: "\<lceil>initialScale ow oh * 10000 - 1 / 100\<rceil> \<le> 10000" by (simp add: ceiling_le_iff)
  have "nat \<lceil>initialScale ow oh * 10000 - 1 / 100\<rceil> \<le> 10000" using c by linarith
  then have "scaleSteps (minScaleOf ow oh) (initialScale ow oh) \<le> 10000"
    unfolding scaleSteps_def by simp
  moreover have "qualitySteps DEFAULT_JPEG_QUALITY = 3"
    unfolding DEFAULT_JPEG_QUALITY_def by (rule qualitySteps_values)
  ultimately show ?thesis
    by (simp add: loopSteps_def initialVars_def Let_def)
qed

lemma minScale_ordinary:
  assumes "0 < max ow oh" "max ow oh \<le> 1500000"
  shows "341 / 1000000 \<le> minScaleOf ow oh"
proof -
  have p: "(0::rat) < of_nat (max ow oh)" using assms(1) by (simp only: of_nat_0_less_iff)
  have "(of_nat (max ow oh) :: rat) \<le> of_nat 1500000" using assms(2) by (simp only: of_nat_le_iff)
  then have u: "(of_nat (max ow oh) :: rat) \<le> 1500000" by simp
  have "512 / 1500000 \<le> 512 / (of_nat (max ow oh) :: rat)"
    using p u by (simp add: field_simps)
  moreover have "(0::rat) < 512 / 1500000" by simp
  ultimately have "binary64 (512 / 1500000) \<le> binary64 (512 / of_nat (max ow oh))"
    by (rule binary64_mono[rotated])
  moreover have "binary64 (512 / 1500000) = 3148244321913097 / 9223372036854775808"
    by (simp add: binary64_eval)
  ultimately have "341 / 1000000 \<le> binary64 (512 / of_nat (max ow oh))" by simp
  then show ?thesis by (simp add: minScaleOf_def MIN_ATTACHMENT_EDGE_def)
qed

text \<open>
  For an image whose longest edge is at most 1500000 pixels the floor scale is at least
  0.000341, every downscale step lowers the scale, and the loop is left within 10003
  iterations, whatever the canvas returns.
\<close>

lemma compress_loop_leaves_ordinary_sizes:
  assumes "0 < max ow oh" "max ow oh \<le> 1500000"
  shows "\<exists>w. compressLoop draw ow oh (minScaleOf ow oh) 10003 (initialVars draw ow oh) = Some w
             \<and> \<not> loopCond (minScaleOf ow oh) w"
proof (rule compressLoop_leaves)
  show "341 / 1000000 \<le> minScaleOf ow oh" using assms by (rule minScale_ordinary)
  show "loopInv (minScaleOf ow oh) (initialVars draw ow oh)" by (rule loopInv_initial)
  show "currentScale (initialVars draw ow oh) \<le> 1"
    using initialScale_le_1[of ow oh] by (simp add: initialVars_def Let_def)
  show "loopSteps (minScaleOf ow oh) (initialVars draw ow oh) \<le> 10003" by (rule loopSteps_initial)
qed

text \<open>
  For such an image the call returns an attachment within the ceiling or throws the
  error that names the file and the ceiling.
\<close>

lemma compress_ordinary_sizes_returns_or_throws:
  assumes "loadImageFromFile b f = Some img" "has2dContext b"
    and "naturalWidth img \<noteq> 0" "naturalHeight img \<noteq> 0"
    and "max (naturalWidth img) (naturalHeight img) \<le> 1500000"
  shows "(\<exists>a. compressImageFile b 10003 f = Some (Inr a) \<and> optSize a \<le> MAX_BASE64_ATTACHMENT_BYTES)
         \<or> compressImageFile b 10003 f = Some (Inl (tooLargeMessage (fileName f)))"
proof -
  have "0 < max (naturalWidth img) (naturalHeight img)" using assms(3) by simp
  then obtain w where
    "compressLoop (render b img) (naturalWidth img) (naturalHeight img)
       (minScaleOf (naturalWidth img) (naturalHeight img)) 10003
       (initialVars (render b img) (naturalWidth img) (naturalHeight img)) = Some w"
    using compress_loop_leaves_ordinary_sizes[OF _ assms(5)] by blast
  then show ?thesis
    using assms(1-4) by (simp add: compressImageFile_def Let_def)
qed

section \<open>Properties of the transport decoder\<close>

lemma js_split_nonempty: "sep \<noteq> [] \<Longrightarrow> js_split sep s \<noteq> []"
  by (induction sep s rule: js_split.induct) (auto split: list.splits)

lemma js_split_sep_append:
  "sep \<noteq> [] \<Longrightarrow> js_split sep (sep @ r) = [] # js_split sep r"
  by (cases sep) auto

lemma js_split_Cons_noprefix:
  "sep \<noteq> [] \<Longrightarrow> \<not> prefix sep (c # cs) \<Longrightarrow> js_split sep cs = s # ss \<Longrightarrow>
   js_split sep (c # cs) = (c # s) # ss"
  by simp

lemma js_split_join:
  "sep \<noteq> [] \<Longrightarrow>
   concat (map (\<lambda>x. x @ sep) (butlast (js_split sep s))) @ last (js_split sep s) = s"
proof (induction sep s rule: js_split.induct)
  case (1 sep)
  then show ?case by simp
next
  case (2 sep c cs)
  show ?case
  proof (cases "prefix sep (c # cs)")
    case True
    then obtain r where r: "c # cs = sep @ r" by (auto simp: prefix_def)
    with 2 have d: "drop (length sep - 1) cs = r"
      by (cases sep) auto
    have ne: "js_split sep r \<noteq> []" using 2(3) by (rule js_split_nonempty)
    from 2 True d have "concat (map (\<lambda>x. x @ sep) (butlast (js_split sep r))) @ last (js_split sep r) = r"
      by simp
    with 2(3) ne show ?thesis unfolding r by (simp add: js_split_sep_append)
  next
    case False
    obtain s ss where sp: "js_split sep cs = s # ss"
      using js_split_nonempty[OF 2(3), of cs] by (cases "js_split sep cs") auto
    from 2 False have "concat (map (\<lambda>x. x @ sep) (butlast (js_split sep cs))) @ last (js_split sep cs) = cs"
      by simp
    with False 2(3) sp show ?thesis by (cases ss) auto
  qed
qed

lemma js_split_single: "sep \<noteq> [] \<Longrightarrow> js_split sep s = [x] \<Longrightarrow> x = s"
  using js_split_join[of sep s] by simp

lemma js_split_short: "length s < length sep \<Longrightarrow> js_split sep s = [s]"
proof (induction s)
  case Nil
  then show ?case by auto
next
  case (Cons c cs)
  then have "\<not> prefix sep (c # cs)" by (auto dest: prefix_length_le)
  with Cons show ?case by auto
qed

lemma js_split_append:
  "sep \<noteq> [] \<Longrightarrow>
   js_split sep (p @ c) = butlast (js_split sep p) @ js_split sep (last (js_split sep p) @ c)"
proof (induction sep p rule: js_split.induct)
  case (1 sep)
  then show ?case by simp
next
  case (2 sep a as)
  show ?case
  proof (cases "prefix sep (a # as)")
    case True
    then obtain r where r: "a # as = sep @ r" by (auto simp: prefix_def)
    with 2 have d: "drop (length sep - 1) as = r"
      by (cases sep) auto
    from r 2(3) have d2: "drop (length sep - 1) (as @ c) = r @ c"
      by (cases sep) auto
    have ne: "js_split sep r \<noteq> []" using 2(3) by (rule js_split_nonempty)
    from True have pc: "prefix sep ((a # as) @ c)" by (metis prefix_prefix)
    from 2 True d have "js_split sep (r @ c) = butlast (js_split sep r) @ js_split sep (last (js_split sep r) @ c)"
      by simp
    with 2(3) ne show ?thesis unfolding r by (simp add: js_split_sep_append)
  next
    case False
    note np = False
    obtain s ss where sp: "js_split sep as = s # ss"
      using js_split_nonempty[OF 2(3), of as] by (cases "js_split sep as") auto
    from 2 False have IH: "js_split sep (as @ c) = butlast (js_split sep as) @ js_split sep (last (js_split sep as) @ c)"
      by simp
    show ?thesis
    proof (cases ss)
      case Nil
      with sp have "s = as" using js_split_single[OF 2(3)] by simp
      with Nil sp np 2(3) show ?thesis by simp
    next
      case (Cons t ts)
      have npc: "\<not> prefix sep ((a # as) @ c)"
      proof
        assume "prefix sep ((a # as) @ c)"
        then have "length (a # as) < length sep" using np
          by (metis append_eq_append_conv_if linorder_not_less prefix_def take_is_prefix)
        then have "js_split sep (a # as) = [a # as]" by (rule js_split_short)
        with np 2(3) sp Cons show False by simp
      qed
      from Cons sp np npc 2(3) IH show ?thesis by simp
    qed
  qed
qed


lemma js_split_last_idem:
  "sep \<noteq> [] \<Longrightarrow> js_split sep (last (js_split sep s)) = [last (js_split sep s)]"
proof -
  assume ne: "sep \<noteq> []"
  have "js_split sep s = butlast (js_split sep s) @ js_split sep (last (js_split sep s))"
    using js_split_append[OF ne, of s "[]"] by simp
  moreover have "js_split sep s = butlast (js_split sep s) @ [last (js_split sep s)]"
    using js_split_nonempty[OF ne, of s] by simp
  ultimately show ?thesis by (metis same_append_eq)
qed

lemma pushSegments_concat:
  "pushSegments parse acc segs = acc @ concat (map (segmentEvents parse) segs)"
  by (induction segs arbitrary: acc) auto

lemma segmentEvents_Nil: "segmentEvents parse [] = []"
  by (simp add: segmentEvents_def)

lemma segmentEvents_leading_newline:
  "segmentEvents parse (CHR 0x0A # s) = segmentEvents parse s"
  by (simp add: segmentEvents_def)

lemma segmentEvents_newline: "segmentEvents parse [CHR 0x0A] = []"
  by (simp add: segmentEvents_leading_newline segmentEvents_Nil)

lemma suffix_NN_Cons:
  "suffix [CHR 0x0A, CHR 0x0A] (c # cs) \<Longrightarrow> \<not> prefix [CHR 0x0A, CHR 0x0A] (c # cs) \<Longrightarrow>
   suffix [CHR 0x0A, CHR 0x0A] cs"
  by (auto simp: suffix_Cons)

lemma terminated_last_segment:
  "suffix [CHR 0x0A, CHR 0x0A] s \<Longrightarrow>
   last (js_split [CHR 0x0A, CHR 0x0A] s) = [] \<or> last (js_split [CHR 0x0A, CHR 0x0A] s) = [CHR 0x0A]"
proof (induction s rule: length_induct)
  case (1 s)
  show ?case
  proof (cases s)
    case Nil
    with 1 show ?thesis by simp
  next
    case (Cons c cs)
    show ?thesis
    proof (cases "prefix [CHR 0x0A, CHR 0x0A] s")
      case True
      then obtain r where r: "s = [CHR 0x0A, CHR 0x0A] @ r" by (auto simp: prefix_def)
      then have sp: "js_split [CHR 0x0A, CHR 0x0A] s = [] # js_split [CHR 0x0A, CHR 0x0A] r"
        by simp
      have ne: "js_split [CHR 0x0A, CHR 0x0A] r \<noteq> []" by (rule js_split_nonempty) simp
      consider "r = []" | "r = [CHR 0x0A]" | "suffix [CHR 0x0A, CHR 0x0A] r"
        using 1(2) r by (cases r; cases "tl r") (auto simp: suffix_Cons)
      then show ?thesis
      proof cases
        case 1
        with sp show ?thesis by simp
      next
        case 2
        with sp show ?thesis by simp
      next
        case 3
        moreover have "length r < length s" using r by simp
        ultimately have "last (js_split [CHR 0x0A, CHR 0x0A] r) = [] \<or> last (js_split [CHR 0x0A, CHR 0x0A] r) = [CHR 0x0A]"
          using "1.IH" by blast
        with sp ne show ?thesis by simp
      qed
    next
      case False
      with 1(2) Cons have sc: "suffix [CHR 0x0A, CHR 0x0A] cs" using suffix_NN_Cons by blast
      then have IH: "last (js_split [CHR 0x0A, CHR 0x0A] cs) = [] \<or> last (js_split [CHR 0x0A, CHR 0x0A] cs) = [CHR 0x0A]"
        using "1.IH" Cons by simp
      obtain x xs where sp: "js_split [CHR 0x0A, CHR 0x0A] cs = x # xs"
        using js_split_nonempty[of "[CHR 0x0A, CHR 0x0A]" cs] by (cases "js_split [CHR 0x0A, CHR 0x0A] cs") auto
      show ?thesis
      proof (cases xs)
        case Nil
        with sp have "x = cs" using js_split_single[of "[CHR 0x0A, CHR 0x0A]" cs x] by simp
        with IH sp Nil sc show ?thesis by (auto simp: suffix_def)
      next
        case (Cons y ys)
        have "js_split [CHR 0x0A, CHR 0x0A] s = (c # x) # xs"
          unfolding \<open>s = c # cs\<close>
          by (rule js_split_Cons_noprefix) (use False sp \<open>s = c # cs\<close> in simp_all)
        with IH sp Cons show ?thesis by simp
      qed
    qed
  qed
qed

lemma leading_newline_split:
  "concat (map (segmentEvents parse) (butlast (js_split [CHR 0x0A, CHR 0x0A] (CHR 0x0A # w))))
     = concat (map (segmentEvents parse) (butlast (js_split [CHR 0x0A, CHR 0x0A] w)))
   \<and> dropLeadingNewlines (last (js_split [CHR 0x0A, CHR 0x0A] (CHR 0x0A # w)))
     = dropLeadingNewlines (last (js_split [CHR 0x0A, CHR 0x0A] w))"
proof (induction w)
  case Nil
  show ?case by (simp add: dropLeadingNewlines_def)
next
  case (Cons c w)
  have ne: "js_split [CHR 0x0A, CHR 0x0A] w \<noteq> []" by (rule js_split_nonempty) simp
  show ?case
  proof (cases "c = CHR 0x0A")
    case True
    have "js_split [CHR 0x0A, CHR 0x0A] (CHR 0x0A # c # w) = [] # js_split [CHR 0x0A, CHR 0x0A] w"
      using True by simp
    with Cons True ne show ?thesis by (simp add: segmentEvents_Nil)
  next
    case False
    obtain x xs where sp: "js_split [CHR 0x0A, CHR 0x0A] (c # w) = x # xs"
      using js_split_nonempty[of "[CHR 0x0A, CHR 0x0A]" "c # w"]
      by (cases "js_split [CHR 0x0A, CHR 0x0A] (c # w)") auto
    have "js_split [CHR 0x0A, CHR 0x0A] (CHR 0x0A # c # w) = (CHR 0x0A # x) # xs"
      by (rule js_split_Cons_noprefix) (use False sp in simp_all)
    with sp show ?thesis
      by (cases xs) (simp_all add: dropLeadingNewlines_def segmentEvents_leading_newline)
  qed
qed

lemma leading_newlines_split:
  "concat (map (segmentEvents parse) (butlast (js_split [CHR 0x0A, CHR 0x0A] (replicate n (CHR 0x0A) @ w))))
     = concat (map (segmentEvents parse) (butlast (js_split [CHR 0x0A, CHR 0x0A] w)))
   \<and> dropLeadingNewlines (last (js_split [CHR 0x0A, CHR 0x0A] (replicate n (CHR 0x0A) @ w)))
     = dropLeadingNewlines (last (js_split [CHR 0x0A, CHR 0x0A] w))"
proof (induction n)
  case 0
  show ?case by simp
next
  case (Suc n)
  show ?case
    using leading_newline_split[of parse "replicate n (CHR 0x0A) @ w"] Suc by simp
qed

lemma leading_newlines_decompose:
  "\<exists>n. x = replicate n (CHR 0x0A) @ dropLeadingNewlines x"
proof (induction x)
  case Nil
  show ?case by (simp add: dropLeadingNewlines_def)
next
  case (Cons c x)
  show ?case
  proof (cases "c = CHR 0x0A")
    case True
    from Cons obtain n where "x = replicate n (CHR 0x0A) @ dropLeadingNewlines x" by blast
    then have "c # x = replicate (Suc n) (CHR 0x0A) @ dropLeadingNewlines (c # x)"
      using True by (simp add: dropLeadingNewlines_def)
    then show ?thesis by blast
  next
    case False
    then have "c # x = replicate 0 (CHR 0x0A) @ dropLeadingNewlines (c # x)"
      by (simp add: dropLeadingNewlines_def)
    then show ?thesis by blast
  qed
qed

lemma same_stripped_split:
  assumes "dropLeadingNewlines x = dropLeadingNewlines y"
  shows "concat (map (segmentEvents parse) (butlast (js_split [CHR 0x0A, CHR 0x0A] (x @ c))))
           = concat (map (segmentEvents parse) (butlast (js_split [CHR 0x0A, CHR 0x0A] (y @ c))))"
    and "dropLeadingNewlines (last (js_split [CHR 0x0A, CHR 0x0A] (x @ c)))
           = dropLeadingNewlines (last (js_split [CHR 0x0A, CHR 0x0A] (y @ c)))"
proof -
  obtain n where x: "x = replicate n (CHR 0x0A) @ dropLeadingNewlines x"
    using leading_newlines_decompose by blast
  obtain m where y: "y = replicate m (CHR 0x0A) @ dropLeadingNewlines x"
    using leading_newlines_decompose[of y] assms by auto
  have xc: "x @ c = replicate n (CHR 0x0A) @ (dropLeadingNewlines x @ c)"
    using x by (metis append_assoc)
  have yc: "y @ c = replicate m (CHR 0x0A) @ (dropLeadingNewlines x @ c)"
    using y by (metis append_assoc)
  show "concat (map (segmentEvents parse) (butlast (js_split [CHR 0x0A, CHR 0x0A] (x @ c))))
           = concat (map (segmentEvents parse) (butlast (js_split [CHR 0x0A, CHR 0x0A] (y @ c))))"
    unfolding xc yc using leading_newlines_split by metis
  show "dropLeadingNewlines (last (js_split [CHR 0x0A, CHR 0x0A] (x @ c)))
           = dropLeadingNewlines (last (js_split [CHR 0x0A, CHR 0x0A] (y @ c)))"
    unfolding xc yc using leading_newlines_split by metis
qed

lemma events_extract:
  "events (extractEventsFromBuffer parse b)
     = concat (map (segmentEvents parse) (butlast (js_split [CHR 0x0A, CHR 0x0A] b)))"
proof (cases "isTerminated b")
  case True
  have ne: "js_split [CHR 0x0A, CHR 0x0A] b \<noteq> []" by (rule js_split_nonempty) simp
  from True have "last (js_split [CHR 0x0A, CHR 0x0A] b) = [] \<or> last (js_split [CHR 0x0A, CHR 0x0A] b) = [CHR 0x0A]"
    unfolding isTerminated_def by (rule terminated_last_segment)
  then have z: "segmentEvents parse (last (js_split [CHR 0x0A, CHR 0x0A] b)) = []"
    by (auto simp: segmentEvents_Nil segmentEvents_newline)
  have "concat (map (segmentEvents parse) (js_split [CHR 0x0A, CHR 0x0A] b))
        = concat (map (segmentEvents parse) (butlast (js_split [CHR 0x0A, CHR 0x0A] b) @ [last (js_split [CHR 0x0A, CHR 0x0A] b)]))"
    using ne by simp
  also have "\<dots> = concat (map (segmentEvents parse) (butlast (js_split [CHR 0x0A, CHR 0x0A] b)))"
    using z by simp
  finally show ?thesis
    using True by (simp add: extractEventsFromBuffer_def loopSegments_def pushSegments_concat Let_def)
next
  case False
  then show ?thesis
    by (simp add: extractEventsFromBuffer_def loopSegments_def pushSegments_concat Let_def)
qed

lemma remainder_extract:
  "dropLeadingNewlines (remainder (extractEventsFromBuffer parse b))
     = dropLeadingNewlines (last (js_split [CHR 0x0A, CHR 0x0A] b))"
proof (cases "isTerminated b")
  case True
  then have "last (js_split [CHR 0x0A, CHR 0x0A] b) = [] \<or> last (js_split [CHR 0x0A, CHR 0x0A] b) = [CHR 0x0A]"
    unfolding isTerminated_def by (rule terminated_last_segment)
  then show ?thesis using True
    by (auto simp: extractEventsFromBuffer_def dropLeadingNewlines_def Let_def)
next
  case False
  have ne: "js_split [CHR 0x0A, CHR 0x0A] b \<noteq> []" by (rule js_split_nonempty) simp
  with False show ?thesis
    by (simp add: extractEventsFromBuffer_def Let_def split: list.splits)
qed

lemma decodeChunks_invariant:
  assumes "dropLeadingNewlines (remainder acc) = dropLeadingNewlines t"
    and "js_split [CHR 0x0A, CHR 0x0A] t = [t]"
  shows "events (decodeChunks parse acc chunks)
           = events acc @ concat (map (segmentEvents parse) (butlast (js_split [CHR 0x0A, CHR 0x0A] (t @ concat chunks))))
         \<and> dropLeadingNewlines (remainder (decodeChunks parse acc chunks))
           = dropLeadingNewlines (last (js_split [CHR 0x0A, CHR 0x0A] (t @ concat chunks)))"
  using assms
proof (induction chunks arbitrary: acc t)
  case Nil
  then show ?case by simp
next
  case (Cons c chunks)
  let ?r = "extractEventsFromBuffer parse (remainder acc @ c)"
  let ?acc = "\<lparr> events = events acc @ events ?r, remainder = remainder ?r \<rparr>"
  let ?t = "last (js_split [CHR 0x0A, CHR 0x0A] (t @ c))"
  have ev: "events ?r = concat (map (segmentEvents parse) (butlast (js_split [CHR 0x0A, CHR 0x0A] (t @ c))))"
    using same_stripped_split(1)[OF Cons.prems(1)] by (simp add: events_extract)
  have rm: "dropLeadingNewlines (remainder ?acc) = dropLeadingNewlines ?t"
    using same_stripped_split(2)[OF Cons.prems(1)] by (simp add: remainder_extract)
  have idem: "js_split [CHR 0x0A, CHR 0x0A] ?t = [?t]"
    by (rule js_split_last_idem) simp
  have sp: "js_split [CHR 0x0A, CHR 0x0A] (t @ concat (c # chunks))
            = butlast (js_split [CHR 0x0A, CHR 0x0A] (t @ c)) @ js_split [CHR 0x0A, CHR 0x0A] (?t @ concat chunks)"
    using js_split_append[of "[CHR 0x0A, CHR 0x0A]" "t @ c" "concat chunks"] by simp
  have ne: "js_split [CHR 0x0A, CHR 0x0A] (?t @ concat chunks) \<noteq> []"
    by (rule js_split_nonempty) simp
  have step: "decodeChunks parse acc (c # chunks) = decodeChunks parse ?acc chunks"
    by (simp add: Let_def)
  from Cons.IH[OF rm idem] ev ne show ?case
    unfolding step sp by (simp add: butlast_append)
qed

text \<open>
  Claim C1, as amended: decoding chunk by chunk, each call fed the previous remainder
  followed by the next chunk, yields the same events in the same order as decoding the
  concatenation at once, and the two final remainders are equal up to leading line feeds.
\<close>

theorem chunked_events_equal:
  "events (decodeChunks parse emptyDecoded chunks)
     = events (extractEventsFromBuffer parse (concat chunks))
   \<and> dropLeadingNewlines (remainder (decodeChunks parse emptyDecoded chunks))
     = dropLeadingNewlines (remainder (extractEventsFromBuffer parse (concat chunks)))"
  using decodeChunks_invariant[of emptyDecoded "[]" parse chunks]
  by (simp add: emptyDecoded_def events_extract remainder_extract)

text \<open>
  Claim C1 as stated also promises the same final remainder. For the chunks
  of three line feeds and \<open>b\<close> the chunked remainder is \<open>b\<close>, the remainder of the single
  call is a line feed followed by \<open>b\<close>.
\<close>

theorem chunked_remainder_differs:
  "decodeChunks exampleParse emptyDecoded [ [CHR 0x0A, CHR 0x0A, CHR 0x0A], ''b'']
     \<noteq> extractEventsFromBuffer exampleParse (concat [ [CHR 0x0A, CHR 0x0A, CHR 0x0A], ''b''])"
  by (simp add: emptyDecoded_def extractEventsFromBuffer_def isTerminated_def loopSegments_def Let_def suffix_def)

lemma js_split_contains_sep:
  "sep \<noteq> [] \<Longrightarrow> 2 \<le> length (js_split sep (a @ sep @ b))"
proof (induction a)
  case Nil
  then show ?case using js_split_nonempty[of sep b]
    by (cases "js_split sep b") (auto simp: js_split_sep_append)
next
  case (Cons c a)
  show ?case
  proof (cases "prefix sep (c # a @ sep @ b)")
    case True
    have "js_split sep (drop (length sep - 1) (a @ sep @ b)) \<noteq> []"
      using Cons.prems by (rule js_split_nonempty)
    with True Cons.prems show ?thesis
      by (cases "js_split sep (drop (length sep - 1) (a @ sep @ b))") auto
  next
    case False
    with Cons show ?thesis
      by (cases "js_split sep (a @ sep @ b)") auto
  qed
qed

lemma last_segment_no_sep:
  assumes "sep \<noteq> []"
  shows "last (js_split sep s) \<noteq> a @ sep @ b"
proof
  assume "last (js_split sep s) = a @ sep @ b"
  then have "js_split sep (a @ sep @ b) = [a @ sep @ b]"
    using js_split_last_idem[OF assms, of s] by simp
  then show False using js_split_contains_sep[OF assms, of a b] by simp
qed

text \<open>
  Claim C6, as amended: a complete frame whose first \<open>data:\<close> line has a payload that is
  not empty after trimming, is not \<open>[DONE]\<close> and fails \<open>JSON.parse\<close> contributes exactly one
  \<open>Error\<close> event, between the unchanged events of the frames before it and those of the
  frames after it. A complete frame whose first \<open>data:\<close> line has a payload that is empty
  after trimming contributes no event, whatever \<open>JSON.parse\<close> does with that payload, and
  the frames before and after it contribute theirs.
\<close>

theorem malformed_frame_one_error:
  assumes "loopSegments buffer = pre @ segment # post"
    and "List.find (prefix ''data:'') (js_split [CHR 0x0A] segment) = Some dataLine"
  shows "(js_trim (drop (length ''data:'') dataLine) \<noteq> []
          \<and> js_trim (drop (length ''data:'') dataLine) \<noteq> ''[DONE]''
          \<and> parse (js_trim (drop (length ''data:'') dataLine)) = None \<longrightarrow>
            events (extractEventsFromBuffer parse buffer)
              = concat (map (segmentEvents parse) pre)
                @ [Error ''Failed to parse streaming chunk.'']
                @ concat (map (segmentEvents parse) post))
         \<and> (js_trim (drop (length ''data:'') dataLine) = [] \<longrightarrow>
            events (extractEventsFromBuffer parse buffer)
              = concat (map (segmentEvents parse) pre) @ concat (map (segmentEvents parse) post))"
proof -
  have e: "events (extractEventsFromBuffer parse buffer)
           = concat (map (segmentEvents parse) pre) @ segmentEvents parse segment
             @ concat (map (segmentEvents parse) post)"
    using assms(1) by (simp add: extractEventsFromBuffer_def pushSegments_concat Let_def)
  have bad: "segmentEvents parse segment = [Error ''Failed to parse streaming chunk.'']"
    if "js_trim (drop (length ''data:'') dataLine) \<noteq> []"
      and "js_trim (drop (length ''data:'') dataLine) \<noteq> ''[DONE]''"
      and "parse (js_trim (drop (length ''data:'') dataLine)) = None"
    using assms(2) that by (simp add: segmentEvents_def Let_def)
  have skip: "segmentEvents parse segment = []"
    if "js_trim (drop (length ''data:'') dataLine) = []"
    using assms(2) that by (simp add: segmentEvents_def Let_def)
  show ?thesis unfolding e using bad skip by simp
qed

text \<open>
  Claim C7: for a buffer that does not end with the delimiter the remainder is the last
  segment of the split, verbatim; the buffer is the complete segments, each followed by
  the delimiter, followed by the remainder; the remainder contains no delimiter; and the
  events are those of the complete segments only. For a buffer that ends with the
  delimiter the remainder is empty.
\<close>

theorem remainder_last_segment:
  "(\<not> isTerminated buffer \<longrightarrow>
      remainder (extractEventsFromBuffer parse buffer) = last (js_split [CHR 0x0A, CHR 0x0A] buffer)
      \<and> buffer = concat (map (\<lambda>s. s @ [CHR 0x0A, CHR 0x0A]) (loopSegments buffer))
                   @ remainder (extractEventsFromBuffer parse buffer)
      \<and> (\<forall>a b. remainder (extractEventsFromBuffer parse buffer) \<noteq> a @ [CHR 0x0A, CHR 0x0A] @ b)
      \<and> events (extractEventsFromBuffer parse buffer)
          = concat (map (segmentEvents parse) (loopSegments buffer)))
   \<and> (isTerminated buffer \<longrightarrow> remainder (extractEventsFromBuffer parse buffer) = [])"
proof -
  have ne: "js_split [CHR 0x0A, CHR 0x0A] buffer \<noteq> []" by (rule js_split_nonempty) simp
  have j: "concat (map (\<lambda>x. x @ [CHR 0x0A, CHR 0x0A]) (butlast (js_split [CHR 0x0A, CHR 0x0A] buffer)))
             @ last (js_split [CHR 0x0A, CHR 0x0A] buffer) = buffer"
    by (rule js_split_join) simp
  have n: "\<forall>a b. last (js_split [CHR 0x0A, CHR 0x0A] buffer) \<noteq> a @ [CHR 0x0A, CHR 0x0A] @ b"
    using last_segment_no_sep[of "[CHR 0x0A, CHR 0x0A]" buffer] by simp
  have r: "\<not> isTerminated buffer \<Longrightarrow>
      remainder (extractEventsFromBuffer parse buffer) = last (js_split [CHR 0x0A, CHR 0x0A] buffer)"
    using ne by (simp add: extractEventsFromBuffer_def Let_def split: list.splits)
  have l: "\<not> isTerminated buffer \<Longrightarrow> loopSegments buffer = butlast (js_split [CHR 0x0A, CHR 0x0A] buffer)"
    by (simp add: loopSegments_def Let_def)
  have e: "events (extractEventsFromBuffer parse buffer) = concat (map (segmentEvents parse) (loopSegments buffer))"
    by (simp add: extractEventsFromBuffer_def pushSegments_concat Let_def)
  have t: "isTerminated buffer \<Longrightarrow> remainder (extractEventsFromBuffer parse buffer) = []"
    by (simp add: extractEventsFromBuffer_def Let_def)
  show ?thesis using r l e t j n by simp
qed

text \<open>
  Claim C6 at two buffers of three frames: in the first the second frame is malformed, in
  the second the payload of the second frame is two spaces.
\<close>

theorem malformed_frame_one_error_witness:
  \<open>events (extractEventsFromBuffer exampleParse
      (''data: {"choices":[{"delta":{"content":"Hi"}}]}'' @ [CHR 0x0A, CHR 0x0A]
       @ ''data: {bad'' @ [CHR 0x0A, CHR 0x0A] @ ''data: [DONE]'' @ [CHR 0x0A, CHR 0x0A]))
   = [Delta (Some ''Hi'') None, Error ''Failed to parse streaming chunk.'', Done]
   \<and> events (extractEventsFromBuffer exampleParse
      (''data: {"choices":[{"delta":{"content":"Hi"}}]}'' @ [CHR 0x0A, CHR 0x0A]
       @ ''data:  '' @ [CHR 0x0A, CHR 0x0A] @ ''data: [DONE]'' @ [CHR 0x0A, CHR 0x0A]))
   = [Delta (Some ''Hi'') None, Done]\<close>
proof -
  let ?b = \<open>''data: {"choices":[{"delta":{"content":"Hi"}}]}'' @ [CHR 0x0A, CHR 0x0A]
       @ ''data: {bad'' @ [CHR 0x0A, CHR 0x0A] @ ''data: [DONE]'' @ [CHR 0x0A, CHR 0x0A]\<close>
  let ?c = \<open>''data: {"choices":[{"delta":{"content":"Hi"}}]}'' @ [CHR 0x0A, CHR 0x0A]
       @ ''data:  '' @ [CHR 0x0A, CHR 0x0A] @ ''data: [DONE]'' @ [CHR 0x0A, CHR 0x0A]\<close>
  let ?pre = \<open>[''data: {"choices":[{"delta":{"content":"Hi"}}]}'']\<close>
  have h1: \<open>loopSegments ?b = ?pre @ ''data: {bad'' # [''data: [DONE]'', []]\<close>
    by (simp add: loopSegments_def isTerminated_def suffix_def)
  have h2: "List.find (prefix ''data:'') (js_split [CHR 0x0A] ''data: {bad'') = Some ''data: {bad''"
    by simp
  have h3: "js_trim (drop (length ''data:'') ''data: {bad'') \<noteq> []"
    by (simp add: js_trim_def js_trimEnd_def js_whitespace_def)
  have h4: "js_trim (drop (length ''data:'') ''data: {bad'') \<noteq> ''[DONE]''"
    by (simp add: js_trim_def js_trimEnd_def js_whitespace_def)
  have h5: "exampleParse (js_trim (drop (length ''data:'') ''data: {bad'')) = None"
    by (simp add: js_trim_def js_trimEnd_def js_whitespace_def exampleParse_def)
  have g1: \<open>loopSegments ?c = ?pre @ ''data:  '' # [''data: [DONE]'', []]\<close>
    by (simp add: loopSegments_def isTerminated_def suffix_def)
  have g2: "List.find (prefix ''data:'') (js_split [CHR 0x0A] ''data:  '') = Some ''data:  ''"
    by simp
  have g3: "js_trim (drop (length ''data:'') ''data:  '') = []"
    by (simp add: js_trim_def js_trimEnd_def js_whitespace_def)
  have s1: \<open>segmentEvents exampleParse ''data: {"choices":[{"delta":{"content":"Hi"}}]}'' = [Delta (Some ''Hi'') None]\<close>
    by (simp add: segmentEvents_def js_trim_def js_trimEnd_def js_whitespace_def exampleParse_def
        deltaEvents_def optProp_def optIndex0_def nullish_def extractTextFromContentU_def
        extractReasoningTextU_def stringField_def Let_def)
  have s2: "segmentEvents exampleParse ''data: [DONE]'' = [Done]"
    by (simp add: segmentEvents_def js_trim_def js_trimEnd_def js_whitespace_def)
  have s3: "segmentEvents exampleParse [] = []"
    by (simp add: segmentEvents_def)
  have "events (extractEventsFromBuffer exampleParse ?b)
          = concat (map (segmentEvents exampleParse) ?pre)
            @ [Error ''Failed to parse streaming chunk.'']
            @ concat (map (segmentEvents exampleParse) [''data: [DONE]'', []])"
    using malformed_frame_one_error
        [where pre = ?pre and segment = "''data: {bad''" and post = "[''data: [DONE]'', []]"
           and dataLine = "''data: {bad''" and parse = exampleParse, OF h1 h2] h3 h4 h5
    by blast
  moreover have "events (extractEventsFromBuffer exampleParse ?c)
          = concat (map (segmentEvents exampleParse) ?pre)
            @ concat (map (segmentEvents exampleParse) [''data: [DONE]'', []])"
    using malformed_frame_one_error
        [where pre = ?pre and segment = "''data:  ''" and post = "[''data: [DONE]'', []]"
           and dataLine = "''data:  ''" and parse = exampleParse, OF g1 g2] g3
    by blast
  ultimately show ?thesis using s1 s2 s3 by simp
qed

text \<open>
  Claim C6 as stated fails for the frame \<open>data:\<close>: its payload, the empty string, is not
  \<open>[DONE]\<close> and is not JSON, and the frame contributes no event at all.
\<close>

theorem empty_payload_no_error:
  "exampleParse (js_trim (drop (length ''data:'') ''data:'')) = None
   \<and> js_trim (drop (length ''data:'') ''data:'') \<noteq> ''[DONE]''
   \<and> events (extractEventsFromBuffer exampleParse (''data:'' @ [CHR 0x0A, CHR 0x0A])) = []"
  by (simp add: js_trim_def js_trimEnd_def exampleParse_def extractEventsFromBuffer_def
      loopSegments_def isTerminated_def suffix_def segmentEvents_def Let_def)

text \<open>
  Claim C7 at a buffer with an incomplete last frame, and at a terminated buffer.
\<close>

theorem remainder_last_segment_witness:
  \<open>\<not> isTerminated (''data: [DONE]'' @ [CHR 0x0A, CHR 0x0A] @ ''data: {"cho'')
   \<and> remainder (extractEventsFromBuffer exampleParse (''data: [DONE]'' @ [CHR 0x0A, CHR 0x0A] @ ''data: {"cho''))
       = ''data: {"cho''
   \<and> events (extractEventsFromBuffer exampleParse (''data: [DONE]'' @ [CHR 0x0A, CHR 0x0A] @ ''data: {"cho''))
       = [Done]
   \<and> isTerminated (''data: [DONE]'' @ [CHR 0x0A, CHR 0x0A])
   \<and> remainder (extractEventsFromBuffer exampleParse (''data: [DONE]'' @ [CHR 0x0A, CHR 0x0A])) = []\<close>
proof -
  let ?b1 = \<open>''data: [DONE]'' @ [CHR 0x0A, CHR 0x0A] @ ''data: {"cho''\<close>
  let ?b2 = \<open>''data: [DONE]'' @ [CHR 0x0A, CHR 0x0A]\<close>
  have n1: "\<not> isTerminated ?b1" by (simp add: isTerminated_def suffix_def Cons_eq_append_conv)
  have t2: "isTerminated ?b2" by (simp add: isTerminated_def suffix_def)
  have l1: \<open>last (js_split [CHR 0x0A, CHR 0x0A] ?b1) = ''data: {"cho''\<close> by simp
  have g1: "loopSegments ?b1 = [''data: [DONE]'']" using n1 by (simp add: loopSegments_def)
  have s2: "segmentEvents exampleParse ''data: [DONE]'' = [Done]"
    by (simp add: segmentEvents_def js_trim_def js_trimEnd_def js_whitespace_def)
  show ?thesis
    using remainder_last_segment[of ?b1 exampleParse] remainder_last_segment[of ?b2 exampleParse]
      n1 t2 l1 g1 s2 by simp
qed

text \<open>
  The two decoder scenarios of the specification: a content frame followed by the
  sentinel frame, and a content frame that arrives in two chunks.
\<close>

lemma scenario_frame_and_sentinel:
  \<open>extractEventsFromBuffer exampleParse
     (''data: {"choices":[{"delta":{"content":"Hi"}}]}'' @ [CHR 0x0A, CHR 0x0A]
      @ ''data: [DONE]'' @ [CHR 0x0A, CHR 0x0A])
   = \<lparr> events = [Delta (Some ''Hi'') None, Done], remainder = [] \<rparr>\<close>
proof -
  have l: \<open>loopSegments (''data: {"choices":[{"delta":{"content":"Hi"}}]}'' @ [CHR 0x0A, CHR 0x0A]
                          @ ''data: [DONE]'' @ [CHR 0x0A, CHR 0x0A])
           = [''data: {"choices":[{"delta":{"content":"Hi"}}]}'', ''data: [DONE]'', []]\<close>
    by (simp add: loopSegments_def isTerminated_def suffix_def)
  have t: \<open>isTerminated (''data: {"choices":[{"delta":{"content":"Hi"}}]}'' @ [CHR 0x0A, CHR 0x0A]
                          @ ''data: [DONE]'' @ [CHR 0x0A, CHR 0x0A])\<close>
    by (simp add: isTerminated_def suffix_def)
  have s1: \<open>segmentEvents exampleParse ''data: {"choices":[{"delta":{"content":"Hi"}}]}''
            = [Delta (Some ''Hi'') None]\<close>
    by (simp add: segmentEvents_def js_trim_def js_trimEnd_def js_whitespace_def exampleParse_def
        deltaEvents_def optProp_def optIndex0_def nullish_def extractTextFromContentU_def
        extractReasoningTextU_def stringField_def Let_def)
  have s2: "segmentEvents exampleParse ''data: [DONE]'' = [Done]"
    by (simp add: segmentEvents_def js_trim_def js_trimEnd_def js_whitespace_def)
  have s3: "segmentEvents exampleParse [] = []"
    by (simp add: segmentEvents_def)
  show ?thesis
    unfolding extractEventsFromBuffer_def Let_def l using t s1 s2 s3 by simp
qed

lemma scenario_two_chunks:
  \<open>decodeChunks exampleParse emptyDecoded [''data: {"choices":[{"delta":{"content":"Hi'']
     = \<lparr> events = [], remainder = ''data: {"choices":[{"delta":{"content":"Hi'' \<rparr>
   \<and> decodeChunks exampleParse emptyDecoded
       [''data: {"choices":[{"delta":{"content":"Hi'', ''"}}]}'' @ [CHR 0x0A, CHR 0x0A]]
     = \<lparr> events = [Delta (Some ''Hi'') None], remainder = [] \<rparr>\<close>
proof -
  have n: \<open>\<not> isTerminated ''data: {"choices":[{"delta":{"content":"Hi''\<close>
    by (simp add: isTerminated_def suffix_def Cons_eq_append_conv)
  have a: \<open>extractEventsFromBuffer exampleParse ''data: {"choices":[{"delta":{"content":"Hi''
           = \<lparr> events = [], remainder = ''data: {"choices":[{"delta":{"content":"Hi'' \<rparr>\<close>
    using n by (simp add: extractEventsFromBuffer_def loopSegments_def Let_def)
  have t: \<open>isTerminated (''data: {"choices":[{"delta":{"content":"Hi"}}]}'' @ [CHR 0x0A, CHR 0x0A])\<close>
    by (simp add: isTerminated_def suffix_def)
  have l: \<open>loopSegments (''data: {"choices":[{"delta":{"content":"Hi"}}]}'' @ [CHR 0x0A, CHR 0x0A])
           = [''data: {"choices":[{"delta":{"content":"Hi"}}]}'', []]\<close>
    using t by (simp add: loopSegments_def)
  have s1: \<open>segmentEvents exampleParse ''data: {"choices":[{"delta":{"content":"Hi"}}]}''
            = [Delta (Some ''Hi'') None]\<close>
    by (simp add: segmentEvents_def js_trim_def js_trimEnd_def js_whitespace_def exampleParse_def
        deltaEvents_def optProp_def optIndex0_def nullish_def extractTextFromContentU_def
        extractReasoningTextU_def stringField_def Let_def)
  have s3: "segmentEvents exampleParse [] = []"
    by (simp add: segmentEvents_def)
  have b: \<open>extractEventsFromBuffer exampleParse
             (''data: {"choices":[{"delta":{"content":"Hi"}}]}'' @ [CHR 0x0A, CHR 0x0A])
           = \<lparr> events = [Delta (Some ''Hi'') None], remainder = [] \<rparr>\<close>
    unfolding extractEventsFromBuffer_def Let_def l using t s1 s3 by simp
  show ?thesis
    using a b by (simp add: emptyDecoded_def)
qed

section \<open>Properties of the text extraction\<close>

text \<open>
  Claim C5, as amended: both extractors return a string as it is and, for an array of
  any entries, the concatenation, in order, of what they extract from each entry; from an
  object they take the first applicable field only: \<open>text\<close> when it is a string;
  otherwise, for reasoning only, \<open>summary\<close> when it is a string, followed by two line
  feeds, then \<open>data\<close> when it is a string; otherwise what they extract from \<open>content\<close>
  when the object has one; otherwise nothing. From \<open>null\<close>, a boolean, a number and
  \<open>undefined\<close> they extract nothing.
\<close>

theorem first_applicable_field:
  "extractTextFromContent (JStr leaf) = leaf
   \<and> extractReasoningText (JStr leaf) = leaf
   \<and> extractTextFromContent (JArr entries) = concat (map extractTextFromContent entries)
   \<and> extractReasoningText (JArr entries) = concat (map extractReasoningText entries)
   \<and> (stringField props ''text'' = Some t \<longrightarrow>
      extractTextFromContent (JObj props) = t \<and> extractReasoningText (JObj props) = t)
   \<and> (stringField props ''text'' = None \<longrightarrow>
      extractTextFromContent (JObj props) = extractTextFromContentU (map_of props ''content''))
   \<and> (stringField props ''text'' = None \<and> map_of props ''content'' = Some c \<longrightarrow>
      extractTextFromContent (JObj props) = extractTextFromContent c)
   \<and> (stringField props ''text'' = None \<and> map_of props ''content'' = None \<longrightarrow>
      extractTextFromContent (JObj props) = [])
   \<and> (stringField props ''text'' = None \<and> stringField props ''summary'' = Some s \<longrightarrow>
      extractReasoningText (JObj props) = s @ [CHR 0x0A, CHR 0x0A])
   \<and> (stringField props ''text'' = None \<and> stringField props ''summary'' = None
        \<and> stringField props ''data'' = Some d \<longrightarrow>
      extractReasoningText (JObj props) = d)
   \<and> (stringField props ''text'' = None \<and> stringField props ''summary'' = None
        \<and> stringField props ''data'' = None \<longrightarrow>
      extractReasoningText (JObj props) = extractReasoningTextU (map_of props ''content''))
   \<and> (stringField props ''text'' = None \<and> stringField props ''summary'' = None
        \<and> stringField props ''data'' = None \<and> map_of props ''content'' = Some c \<longrightarrow>
      extractReasoningText (JObj props) = extractReasoningText c)
   \<and> (stringField props ''text'' = None \<and> stringField props ''summary'' = None
        \<and> stringField props ''data'' = None \<and> map_of props ''content'' = None \<longrightarrow>
      extractReasoningText (JObj props) = [])
   \<and> extractTextFromContent JNull = [] \<and> extractReasoningText JNull = []
   \<and> extractTextFromContent (JBool flag) = [] \<and> extractReasoningText (JBool flag) = []
   \<and> extractTextFromContent (JNum n) = [] \<and> extractReasoningText (JNum n) = []
   \<and> extractTextFromContentU None = [] \<and> extractReasoningTextU None = []
   \<and> extractTextFromContent (JArr (map JStr leaves)) = concat leaves
   \<and> extractReasoningText (JArr (map JStr leaves)) = concat leaves
   \<and> extractTextFromContent (JArr (xs @ ys))
        = extractTextFromContent (JArr xs) @ extractTextFromContent (JArr ys)
   \<and> extractReasoningText (JArr (xs @ ys))
        = extractReasoningText (JArr xs) @ extractReasoningText (JArr ys)"
proof -
  have a: "map extractTextFromContent (map JStr leaves) = leaves"
    by (induction leaves) auto
  have b: "map extractReasoningText (map JStr leaves) = leaves"
    by (induction leaves) auto
  show ?thesis
    using a b
    by (auto simp: extractTextFromContentU_def extractReasoningTextU_def split: option.splits)
qed

text \<open>
  Claim C5 as stated fails for an object with a \<open>text\<close> and a \<open>content\<close> field: the code
  returns the \<open>text\<close> alone, where every string leaf of the two props would be \<open>ab\<close>.
\<close>

theorem several_fields_first_only:
  \<open>events (extractEventsFromBuffer exampleParse
      (''data: {"choices":[{"delta":{"content":{"text":"a","content":"b"}}}]}''
       @ [CHR 0x0A, CHR 0x0A]))
     = [Delta (Some ''a'') None]
   \<and> extractTextFromContent (JObj [(''text'', JStr ''a''), (''content'', JStr ''b'')])
     \<noteq> specAllLeaves (JObj [(''text'', JStr ''a''), (''content'', JStr ''b'')])\<close>
proof -
  have s: \<open>segmentEvents exampleParse
             ''data: {"choices":[{"delta":{"content":{"text":"a","content":"b"}}}]}''
           = [Delta (Some ''a'') None]\<close>
    by (simp add: segmentEvents_def js_trim_def js_trimEnd_def js_whitespace_def exampleParse_def
        deltaEvents_def optProp_def optIndex0_def nullish_def extractTextFromContentU_def
        extractReasoningTextU_def stringField_def Let_def)
  have l: \<open>loopSegments (''data: {"choices":[{"delta":{"content":{"text":"a","content":"b"}}}]}''
                 @ [CHR 0x0A, CHR 0x0A])
           = [''data: {"choices":[{"delta":{"content":{"text":"a","content":"b"}}}]}'', []]\<close>
    by (simp add: loopSegments_def isTerminated_def suffix_def)
  have e: "segmentEvents exampleParse [] = []" by (simp add: segmentEvents_def)
  show ?thesis
    unfolding extractEventsFromBuffer_def Let_def l using s e by (simp add: stringField_def)
qed

text \<open>
  Claim C5 at four objects, one for each field that can be the first applicable one.
\<close>

theorem first_applicable_field_witness:
  "stringField [(''text'', JStr ''a''), (''content'', JStr ''b'')] ''text'' = Some ''a''
   \<and> extractTextFromContent (JObj [(''text'', JStr ''a''), (''content'', JStr ''b'')]) = ''a''
   \<and> stringField [(''summary'', JStr ''s''), (''data'', JStr ''d'')] ''text'' = None
   \<and> stringField [(''summary'', JStr ''s''), (''data'', JStr ''d'')] ''summary'' = Some ''s''
   \<and> extractReasoningText (JObj [(''summary'', JStr ''s''), (''data'', JStr ''d'')]) = ''s'' @ [CHR 0x0A, CHR 0x0A]
   \<and> extractTextFromContent (JObj [(''summary'', JStr ''s''), (''data'', JStr ''d'')]) = []
   \<and> stringField [(''data'', JStr ''d''), (''content'', JStr ''c'')] ''summary'' = None
   \<and> extractReasoningText (JObj [(''data'', JStr ''d''), (''content'', JStr ''c'')]) = ''d''
   \<and> stringField [(''content'', JArr [JStr ''c'', JStr ''e''])] ''data'' = None
   \<and> extractReasoningText (JObj [(''content'', JArr [JStr ''c'', JStr ''e''])]) = ''ce''"
proof -
  have h1: "stringField [(''text'', JStr ''a''), (''content'', JStr ''b'')] ''text'' = Some ''a''"
    by (simp add: stringField_def)
  have h2: "stringField [(''summary'', JStr ''s''), (''data'', JStr ''d'')] ''text'' = None"
    "stringField [(''summary'', JStr ''s''), (''data'', JStr ''d'')] ''summary'' = Some ''s''"
    by (simp_all add: stringField_def)
  have h3: "stringField [(''data'', JStr ''d''), (''content'', JStr ''c'')] ''text'' = None"
    "stringField [(''data'', JStr ''d''), (''content'', JStr ''c'')] ''summary'' = None"
    "stringField [(''data'', JStr ''d''), (''content'', JStr ''c'')] ''data'' = Some ''d''"
    by (simp_all add: stringField_def)
  have h4: "stringField [(''content'', JArr [JStr ''c'', JStr ''e''])] ''text'' = None"
    "stringField [(''content'', JArr [JStr ''c'', JStr ''e''])] ''summary'' = None"
    "stringField [(''content'', JArr [JStr ''c'', JStr ''e''])] ''data'' = None"
    by (simp_all add: stringField_def)
  have c4: "extractReasoningTextU (map_of [(''content'', JArr [JStr ''c'', JStr ''e''])] ''content'') = ''ce''"
    by (simp add: extractReasoningTextU_def)
  have c2: "extractTextFromContentU (map_of [(''summary'', JStr ''s''), (''data'', JStr ''d'')] ''content'') = []"
    by (simp add: extractTextFromContentU_def)
  show ?thesis
    using first_applicable_field
        [where props = "[(''text'', JStr ''a''), (''content'', JStr ''b'')]" and t = "''a''"]
      first_applicable_field
        [where props = "[(''summary'', JStr ''s''), (''data'', JStr ''d'')]" and s = "''s''"]
      first_applicable_field
        [where props = "[(''data'', JStr ''d''), (''content'', JStr ''c'')]" and d = "''d''"]
      first_applicable_field
        [where props = "[(''content'', JArr [JStr ''c'', JStr ''e''])]"]
      h1 h2 h3 h4 c2 c4
    by simp
qed

section \<open>Properties of the message aggregation and of the request content\<close>

lemma foldDelta_duration:
  "reasoningDurationSeconds message = Some d \<Longrightarrow>
   reasoningDurationSeconds (foldDelta now contentDelta reasoningDelta message) = Some d"
  by (simp add: foldDelta_def Let_def)

lemma finalizeStreamEnd_duration:
  "reasoningDurationSeconds message = Some d \<Longrightarrow>
   reasoningDurationSeconds (finalizeStreamEnd now message) = Some d"
  by (simp add: finalizeStreamEnd_def Let_def)

lemma foldStreamEvent_duration:
  "reasoningDurationSeconds message = Some d \<Longrightarrow> foldStreamEvent now event message = Inr next \<Longrightarrow>
   reasoningDurationSeconds next = Some d"
  by (cases event) (auto simp: foldDelta_duration split: if_splits)

lemma foldEvents_duration:
  "reasoningDurationSeconds message = Some d \<Longrightarrow>
   reasoningDurationSeconds (snd (foldEvents timedEvents message)) = Some d"
proof (induction timedEvents arbitrary: message)
  case Nil
  then show ?case by simp
next
  case (Cons timed rest)
  obtain now event where t: "timed = (now, event)" by (cases timed)
  show ?case
  proof (cases "foldStreamEvent now event message")
    case (Inl err)
    with Cons.prems t show ?thesis by simp
  next
    case (Inr nxt)
    then have "reasoningDurationSeconds nxt = Some d"
      using Cons.prems foldStreamEvent_duration by blast
    then have "reasoningDurationSeconds (snd (foldEvents rest nxt)) = Some d"
      by (rule Cons.IH)
    with Inr t show ?thesis by simp
  qed
qed

text \<open>
  Claim C3, as amended: once \<open>reasoningDurationSeconds\<close> is set, no \<open>delta\<close> event,
  whatever text it carries, no \<open>done\<close> event and no finalization at the end of the
  stream changes it, after any number of events; the finalization after an error clears
  it.
\<close>

theorem duration_frozen:
  assumes "reasoningDurationSeconds message = Some d"
  shows "reasoningDurationSeconds (foldDelta now contentDelta reasoningDelta message) = Some d
         \<and> reasoningDurationSeconds (finalizeStreamEnd now message) = Some d
         \<and> reasoningDurationSeconds (snd (foldEvents timedEvents message)) = Some d
         \<and> (fst (foldEvents timedEvents message) = None \<longrightarrow>
              reasoningDurationSeconds (receiveStream timedEvents endTime message) = Some d)
         \<and> reasoningDurationSeconds (finalizeError text message) = None
         \<and> (fst (foldEvents timedEvents message) \<noteq> None \<longrightarrow>
              reasoningDurationSeconds (receiveStream timedEvents endTime message) = None)"
proof -
  have a: "reasoningDurationSeconds (snd (foldEvents timedEvents message)) = Some d"
    using assms by (rule foldEvents_duration)
  have b: "fst (foldEvents timedEvents message) = None \<Longrightarrow>
           reasoningDurationSeconds (receiveStream timedEvents endTime message) = Some d"
    using finalizeStreamEnd_duration[OF a]
    by (cases "foldEvents timedEvents message") (simp add: receiveStream_def)
  have c: "fst (foldEvents timedEvents message) \<noteq> None \<Longrightarrow>
           reasoningDurationSeconds (receiveStream timedEvents endTime message) = None"
    by (cases "foldEvents timedEvents message") (auto simp: receiveStream_def finalizeError_def)
  show ?thesis
    using assms a b c
    by (simp add: foldDelta_duration finalizeStreamEnd_duration finalizeError_def)
qed

text \<open>
  Claim C3 as stated fails for the finalization after an \<open>error\<close> event: a reasoning
  delta and a content delta set the duration to one second, and the error event that
  follows leaves the message without a duration.
\<close>

theorem error_clears_duration:
  "reasoningDurationSeconds
     (snd (foldEvents [(1000, Delta None (Some ''think'')), (3000, Delta (Some ''Hi'') None)]
            (createPlaceholderMessage ''p''))) = Some 1
   \<and> reasoningDurationSeconds
       (receiveStream [(1000, Delta None (Some ''think'')), (3000, Delta (Some ''Hi'') None),
                       (4000, Error ''Failed to parse streaming chunk.'')] 5000
          (createPlaceholderMessage ''p'')) \<noteq> Some 1"
  by (simp add: receiveStream_def foldDelta_def finalizeError_def hasText_def createPlaceholderMessage_def
      elapsedSeconds_def jsRound_def Let_def)

text \<open>
  Claim C3 at a message whose duration is one second: later reasoning text, content text,
  a \<open>done\<close> event and the end of the stream leave it at one second.
\<close>

theorem duration_frozen_witness:
  "reasoningDurationSeconds
     (snd (foldEvents [(1000, Delta None (Some ''think'')), (3000, Delta (Some ''Hi'') None)]
            (createPlaceholderMessage ''p''))) = Some 1
   \<and> reasoningDurationSeconds
       (receiveStream [(9000, Delta None (Some ''late'')), (9500, Delta (Some ''!'') None), (9600, Done)] 9900
          (snd (foldEvents [(1000, Delta None (Some ''think'')), (3000, Delta (Some ''Hi'') None)]
                 (createPlaceholderMessage ''p'')))) = Some 1"
proof -
  let ?m = "snd (foldEvents [(1000, Delta None (Some ''think'')), (3000, Delta (Some ''Hi'') None)]
                 (createPlaceholderMessage ''p''))"
  let ?es = "[(9000, Delta None (Some ''late'')), (9500, Delta (Some ''!'') None), (9600, Done)]"
  have h: "reasoningDurationSeconds ?m = Some 1"
    by (simp add: foldDelta_def hasText_def createPlaceholderMessage_def
        elapsedSeconds_def jsRound_def Let_def)
  have n: "fst (foldEvents ?es ?m) = None"
    by (simp add: hasText_def)
  show ?thesis
    using duration_frozen[OF h, of _ _ _ ?es 9900] h n by simp
qed

text \<open>
  Claim C4, as amended: a \<open>delta\<close> event that carries reasoning text sets
  \<open>reasoningStoppedAt\<close> to the current time; a \<open>delta\<close> event without reasoning text,
  the change from reasoning to content included, leaves it as it is; the finalizations at
  the end of the stream and after an error clear it.
\<close>

theorem stoppedAt_assignment:
  "(hasText reasoningDelta \<longrightarrow>
      reasoningStoppedAt (foldDelta now contentDelta reasoningDelta message) = Some now)
   \<and> (\<not> hasText reasoningDelta \<longrightarrow>
      reasoningStoppedAt (foldDelta now contentDelta reasoningDelta message)
        = reasoningStoppedAt message)
   \<and> reasoningStoppedAt (finalizeStreamEnd now message) = None
   \<and> reasoningStoppedAt (finalizeError fallback message) = None"
  by (simp add: foldDelta_def finalizeStreamEnd_def finalizeError_def Let_def split: option.splits)

text \<open>
  Claim C4 as stated fails: a \<open>delta\<close> event that carries reasoning text only assigns
  \<open>reasoningStoppedAt\<close>.
\<close>

theorem reasoning_delta_assigns_stoppedAt:
  "reasoningStoppedAt (foldDelta 1000 None (Some ''think'') (createPlaceholderMessage ''p''))
     \<noteq> reasoningStoppedAt (createPlaceholderMessage ''p'')"
  by (simp add: foldDelta_def hasText_def createPlaceholderMessage_def Let_def)

text \<open>
  Claim C4 at a reasoning delta at time 1000 followed by a content delta at time 3000.
\<close>

theorem stoppedAt_assignment_witness:
  "hasText (Some ''think'')
   \<and> reasoningStoppedAt (foldDelta 1000 None (Some ''think'') (createPlaceholderMessage ''p'')) = Some 1000
   \<and> \<not> hasText None
   \<and> reasoningStoppedAt
        (foldDelta 3000 (Some ''Hi'') None
           (foldDelta 1000 None (Some ''think'') (createPlaceholderMessage ''p''))) = Some 1000"
proof -
  have h1: "hasText (Some ''think'')" by (simp add: hasText_def)
  have h2: "\<not> hasText None" by (simp add: hasText_def)
  show ?thesis
    using stoppedAt_assignment[of "Some ''think''" 1000 None "createPlaceholderMessage ''p''"]
      stoppedAt_assignment[of None 3000 "Some ''Hi''"
        "foldDelta 1000 None (Some ''think'') (createPlaceholderMessage ''p'')"]
      h1 h2
    by simp
qed

text \<open>
  Claim C10: for a message whose content trims to the empty string and that has at least
  one attachment, the result is a list of parts: a text part with the fixed fallback
  string, then one \<open>image_url\<close> part for each attachment, in order.
\<close>

theorem attachment_only_fallback:
  assumes "js_trim (content message) = []"
    and "attachments message = Some attached"
    and "attached \<noteq> []"
  shows "mapMessageToApiContent message
           = Parts (TextPart ATTACHMENT_ONLY_FALLBACK_TEXT
                    # map (\<lambda>attachment. ImageUrlPart (attDataUrl attachment)) attached)"
proof -
  obtain a rest where "attached = a # rest" using assms(3) by (cases attached) auto
  with assms(1,2) show ?thesis
    by (simp add: mapMessageToApiContent_def Let_def)
qed

text \<open>
  Claim C10 at a message of two spaces and two attachments.
\<close>

theorem attachment_only_fallback_witness:
  "js_trim ''  '' = []
   \<and> mapMessageToApiContent
        \<lparr> msgId = ''u'', role = User, content = ''  '',
          attachments = Some [\<lparr> attId = ''a'', attName = ''cat.jpg'', attSize = 3,
                                attType = ''image/jpeg'', attDataUrl = ''data:image/jpeg;base64,TWFu'' \<rparr>,
                              \<lparr> attId = ''b'', attName = ''dog.jpg'', attSize = 3,
                                attType = ''image/jpeg'', attDataUrl = ''data:image/jpeg;base64,TWFv'' \<rparr>],
          reasoning = None, reasoningDurationSeconds = None, reasoningStartedAt = None,
          reasoningStoppedAt = None, isReasoningStreaming = None \<rparr>
      = Parts [TextPart ''Please analyze the attached image(s) and describe what you see.'',
               ImageUrlPart ''data:image/jpeg;base64,TWFu'',
               ImageUrlPart ''data:image/jpeg;base64,TWFv'']"
proof -
  let ?as = "[\<lparr> attId = ''a'', attName = ''cat.jpg'', attSize = 3,
                attType = ''image/jpeg'', attDataUrl = ''data:image/jpeg;base64,TWFu'' \<rparr>,
              \<lparr> attId = ''b'', attName = ''dog.jpg'', attSize = 3,
                attType = ''image/jpeg'', attDataUrl = ''data:image/jpeg;base64,TWFv'' \<rparr>]"
  let ?m = "\<lparr> msgId = ''u'', role = User, content = ''  '', attachments = Some ?as,
              reasoning = None, reasoningDurationSeconds = None, reasoningStartedAt = None,
              reasoningStoppedAt = None, isReasoningStreaming = None \<rparr>"
  have t: "js_trim ''  '' = []" by (simp add: js_trim_def js_trimEnd_def js_whitespace_def)
  have h1: "js_trim (content ?m) = []" using t by simp
  have h2: "attachments ?m = Some ?as" by simp
  have h3: "?as \<noteq> []" by simp
  show ?thesis
    using attachment_only_fallback[OF h1 h2 h3] t
    by (simp add: ATTACHMENT_ONLY_FALLBACK_TEXT_def)
qed

end
